theory Spec2Isabelle
  imports Main "HOL-Library.Sublist"
begin

section \<open>The JSON path codec used by the node\<close>

text \<open>
  Modelled from the spec: \<^verbatim>\<open>json-patch.ts\<close> (\<^verbatim>\<open>escapeJsonPath\<close>, \<^verbatim>\<open>splitJsonPath\<close>,
  \<^verbatim>\<open>joinJsonPath\<close>, \<^verbatim>\<open>splitPatch\<close>) is imported by \<^verbatim>\<open>node.ts\<close> but is not among the
  sources. The spec gives: paths are \<^verbatim>\<open>/\<close>-separated, a segment is JSON-Pointer-escaped
  (\<^verbatim>\<open>/\<close> becomes \<^verbatim>\<open>~1\<close>, \<^verbatim>\<open>~\<close> becomes \<^verbatim>\<open>~0\<close>), the root has path \<^verbatim>\<open>""\<close>, and a
  segment list is joined with \<^verbatim>\<open>/\<close>. Strings are lists of characters.
\<close>

definition escapeJsonPath :: "string \<Rightarrow> string" where
  "escapeJsonPath s =
     concat (map (\<lambda>c. if c = CHR ''~'' then ''~0'' else if c = CHR ''/'' then ''~1'' else [c]) s)"

fun unescapeJsonPath :: "string \<Rightarrow> string" where
  "unescapeJsonPath (a # b # cs) =
     (if a = CHR ''~'' \<and> b = CHR ''0'' then CHR ''~'' # unescapeJsonPath cs
      else if a = CHR ''~'' \<and> b = CHR ''1'' then CHR ''/'' # unescapeJsonPath cs
      else a # unescapeJsonPath (b # cs))"
| "unescapeJsonPath cs = cs"

text \<open>JavaScript's \<^verbatim>\<open>str.split("/")\<close>: the empty string splits to one empty piece.\<close>

fun split_slash :: "string \<Rightarrow> string list" where
  "split_slash [] = [[]]"
| "split_slash (c # cs) =
     (if c = CHR ''/'' then [] # split_slash cs
      else (c # hd (split_slash cs)) # tl (split_slash cs))"

text \<open>JavaScript's \<^verbatim>\<open>parts.join("/")\<close>.\<close>

fun join_slash :: "string list \<Rightarrow> string" where
  "join_slash [] = []"
| "join_slash [p] = p"
| "join_slash (p # q # ps) = p @ ''/'' @ join_slash (q # ps)"

text \<open>
  Modelled from the spec: \<^verbatim>\<open>splitJsonPath\<close> splits at \<^verbatim>\<open>/\<close> and unescapes every piece. The
  piece in front of a leading \<^verbatim>\<open>/\<close> is empty and is not a segment: it is dropped, so that
  the root's path \<^verbatim>\<open>""\<close> has no segments and \<^verbatim>\<open>"/a/b"\<close> has the segments \<^verbatim>\<open>a\<close>, \<^verbatim>\<open>b\<close>.
  (Without that, the relative path \<^verbatim>\<open>"/x"\<close> which \<^verbatim>\<open>getRelativePathTo\<close> builds for a child
  could not lead back to the child, which the spec requires.) Other empty pieces, as in
  \<^verbatim>\<open>"a//b"\<close>, stay.
\<close>

definition splitJsonPath :: "string \<Rightarrow> string list" where
  "splitJsonPath p =
     (let parts = map unescapeJsonPath (split_slash p)
      in if hd parts = [] then tl parts else parts)"

text \<open>
  Modelled from the spec: \<^verbatim>\<open>joinJsonPath\<close> writes every segment escaped behind a \<^verbatim>\<open>/\<close>, the
  way \<^verbatim>\<open>path\<close> does; no segments give \<^verbatim>\<open>""\<close>.
\<close>

definition joinJsonPath :: "string list \<Rightarrow> string" where
  "joinJsonPath ps = (if ps = [] then [] else ''/'' @ join_slash (map escapeJsonPath ps))"

section \<open>Data model\<close>

text \<open>
  \<^verbatim>\<open>fail(message)\<close> raises; one constructor per place of \<^verbatim>\<open>node.ts\<close> that raises. The names
  in comments are those of the spec's taxonomy. \<^verbatim>\<open>NullDereference\<close> is the TypeError of
  JavaScript for a member access on \<^verbatim>\<open>null\<close> or \<^verbatim>\<open>undefined\<close> behind a \<^verbatim>\<open>!\<close> assertion.
\<close>

datatype error =
    NodeExistsTwice              \<comment> \<open>StructuralViolation, \<^verbatim>\<open>setParent\<close>\<close>
  | TreeContainsItself           \<comment> \<open>StructuralViolation, \<^verbatim>\<open>setParent\<close>\<close>
  | DifferentEnvironments        \<comment> \<open>StructuralViolation, \<^verbatim>\<open>setParent\<close>\<close>
  | NotSameTree                  \<comment> \<open>CrossTreeError, \<^verbatim>\<open>getRelativePathTo\<close>\<close>
  | CouldNotResolve string string  \<comment> \<open>ResolutionError: the segment and the path named\<close>
  | NodeDied                     \<comment> \<open>DeadNodeError, \<^verbatim>\<open>assertAlive\<close>\<close>
  | DetachNotAlive               \<comment> \<open>\<^verbatim>\<open>detach\<close> on a dead node\<close>
  | ProtectedWrite               \<comment> \<open>WriteProtectionError, \<^verbatim>\<open>assertWritable\<close>\<close>
  | Unsupported string           \<comment> \<open>UnsupportedOperationError: the operation's name\<close>
  | NoStateTreeNode              \<comment> \<open>\<^verbatim>\<open>getStateTreeNode\<close> on a value that is no tree node\<close>
  | NullDereference

text \<open>
  A JavaScript value as far as \<^verbatim>\<open>===\<close> can tell: \<^verbatim>\<open>undefined\<close>, a primitive, or an object
  with its identity and its content.
\<close>

datatype jsval = Undefined | Primitive string | Object nat string

fun strict_eq :: "jsval \<Rightarrow> jsval \<Rightarrow> bool" where
  "strict_eq Undefined Undefined = True"
| "strict_eq (Primitive a) (Primitive b) = (a = b)"
| "strict_eq (Object r _) (Object r' _) = (r = r')"
| "strict_eq _ _ = False"

fun value_eq :: "jsval \<Rightarrow> jsval \<Rightarrow> bool" where
  "value_eq Undefined Undefined = True"
| "value_eq (Primitive a) (Primitive b) = (a = b)"
| "value_eq (Object _ c) (Object _ c') = (c = c')"
| "value_eq _ _ = False"

datatype patchOp = Add | Remove | Replace

datatype jsonPatch = JsonPatch (patch_op: patchOp) (patch_path: string) (patch_value: jsval)

datatype reversibleJsonPatch =
  ReversibleJsonPatch (rp_op: patchOp) (rp_path: string) (rp_value: jsval) (rp_oldValue: jsval)

text \<open>
  Modelled from the spec: \<^verbatim>\<open>splitPatch\<close> (absent) splits a reversible patch into the
  forward patch and the reverse patch that undoes it, both at the same path.
\<close>

definition stripPatch :: "reversibleJsonPatch \<Rightarrow> jsonPatch" where
  "stripPatch p = JsonPatch (rp_op p) (rp_path p) (case rp_op p of Remove \<Rightarrow> Undefined | _ \<Rightarrow> rp_value p)"

definition invertPatch :: "reversibleJsonPatch \<Rightarrow> jsonPatch" where
  "invertPatch p =
     (case rp_op p of
        Add \<Rightarrow> JsonPatch Remove (rp_path p) Undefined
      | Remove \<Rightarrow> JsonPatch Add (rp_path p) (rp_oldValue p)
      | Replace \<Rightarrow> JsonPatch Replace (rp_path p) (rp_oldValue p))"

definition splitPatch :: "reversibleJsonPatch \<Rightarrow> jsonPatch \<times> jsonPatch" where
  "splitPatch p = (stripPatch p, invertPatch p)"

text \<open>
  Modelled from the spec: \<^verbatim>\<open>identifier-cache.ts\<close> is not among the sources. A cache is kept
  as the record of the operations \<^verbatim>\<open>node.ts\<close> applies to it: \<^verbatim>\<open>new IdentifierCache()\<close>,
  \<^verbatim>\<open>addNodeToCache(node)\<close>, \<^verbatim>\<open>mergeCache(node)\<close> (which reads the cache of the node being
  attached), \<^verbatim>\<open>notifyDied(node)\<close>, and \<^verbatim>\<open>splitCache(node)\<close>, which returns a fresh cache
  (\<^verbatim>\<open>SplitOff\<close>) and leaves the rest in the cache it is called on (\<^verbatim>\<open>SplitRest\<close>).
\<close>

datatype cache =
    NewCache
  | AddNodeToCache cache nat
  | MergeCache cache nat "cache option"
  | NotifyDied cache nat
  | SplitOff cache nat
  | SplitRest cache nat

datatype kind = Immutable | Mutable

text \<open>
  One node object. \<^verbatim>\<open>kind\<close> tells class \<^verbatim>\<open>ImmutableNode\<close> from its subclass \<^verbatim>\<open>Node\<close>.
  The fields \<^verbatim>\<open>_parent\<close>, \<^verbatim>\<open>_isRunningAction\<close>, \<^verbatim>\<open>_environment\<close>, \<^verbatim>\<open>_isAlive\<close> and
  \<^verbatim>\<open>_isDetaching\<close> are written with the prefix \<^verbatim>\<open>priv_\<close>. References to nodes are node ids;
  callbacks (disposers, subscribers, middleware) are ids too, and calling one is recorded
  in the trace. \<^verbatim>\<open>_environment\<close> is \<^verbatim>\<open>None\<close> when falsy and an identity otherwise.

  What the type descriptor (an external collaborator, absent) reads from \<^verbatim>\<open>storedValue\<close>
  is held in the node: \<^verbatim>\<open>children\<close> is the list of child nodes by subpath
  (\<^verbatim>\<open>type.getChildren\<close>, \<^verbatim>\<open>type.getChildNode\<close>, changed by \<^verbatim>\<open>type.removeChild\<close>),
  \<^verbatim>\<open>typeValue\<close> and \<^verbatim>\<open>typeSnapshot\<close> are what \<^verbatim>\<open>type.getValue\<close> and \<^verbatim>\<open>type.getSnapshot\<close>
  return, \<^verbatim>\<open>hooks\<close> are the names under which \<^verbatim>\<open>storedValue\<close> holds a function.
  \<^verbatim>\<open>frozenSnapshot\<close> is the read-only \<^verbatim>\<open>snapshot\<close> property that \<^verbatim>\<open>finalizeDeath\<close> puts in
  place of the computed one, \<^verbatim>\<open>poisoned\<close> the path recorded by the \<^verbatim>\<open>$mobx\<close> getter that
  \<^verbatim>\<open>finalizeDeath\<close> installs. The \<^verbatim>\<open>_autoUnbox\<close> flag, which \<^verbatim>\<open>getChildNode\<close> and
  \<^verbatim>\<open>getChildren\<close> clear and set again around the descriptor's call, is left out.
\<close>

record node =
  kind :: kind
  priv_parent :: "nat option"
  subpath :: string
  priv_isRunningAction :: bool
  identifierCache :: "cache option"
  isProtectionEnabled :: bool
  priv_environment :: "nat option"
  priv_isAlive :: bool
  priv_isDetaching :: bool
  middlewares :: "nat list"
  snapshotSubscribers :: "nat list"
  patchSubscribers :: "nat list"
  disposers :: "nat list"
  children :: "(string \<times> nat) list"
  typeValue :: jsval
  typeSnapshot :: jsval
  hooks :: "string list"
  frozenSnapshot :: "jsval option"
  poisoned :: "string option"

text \<open>What the outside sees happen: user code called by the node.\<close>

datatype event =
    HookFired nat string                      \<comment> \<open>node, hook name\<close>
  | DisposerCalled nat nat                    \<comment> \<open>node, disposer\<close>
  | PatchHandlerCalled nat nat jsonPatch jsonPatch  \<comment> \<open>node, handler, patch, reverse patch\<close>
  | SnapshotHandlerCalled nat nat jsval       \<comment> \<open>node, handler, snapshot\<close>

text \<open>
  The program state: every reference leads to a node object (the heap is total), and the
  trace lists the calls into user code, oldest first.
\<close>

record state =
  heap :: "nat \<Rightarrow> node"
  trace :: "event list"

text \<open>
  A call either does not return (\<^verbatim>\<open>None\<close>: a walk up a cyclic parent chain), raises
  (\<^verbatim>\<open>Some (Inl e)\<close>) or returns (\<^verbatim>\<open>Some (Inr x)\<close>).
\<close>

type_synonym 'a result = "(error + 'a) option"

definition ok :: "'a \<Rightarrow> 'a result" where
  "ok x = Some (Inr x)"

definition fail :: "error \<Rightarrow> 'a result" where
  "fail e = Some (Inl e)"

definition thenR :: "'a result \<Rightarrow> ('a \<Rightarrow> 'b result) \<Rightarrow> 'b result" where
  "thenR m f = Option.bind m (\<lambda>r. case r of Inl e \<Rightarrow> Some (Inl e) | Inr x \<Rightarrow> f x)"

definition update_node :: "nat \<Rightarrow> (node \<Rightarrow> node) \<Rightarrow> state \<Rightarrow> state" where
  "update_node n f \<sigma> = \<sigma>\<lparr>heap := (heap \<sigma>)(n := f (heap \<sigma> n))\<rparr>"

definition emit :: "event list \<Rightarrow> state \<Rightarrow> state" where
  "emit es \<sigma> = \<sigma>\<lparr>trace := trace \<sigma> @ es\<rparr>"


definition lift :: "'a option \<Rightarrow> 'a result" where
  "lift m = map_option Inr m"

text \<open>\<^verbatim>\<open>xs.forEach(f)\<close> for an \<open>f\<close> that changes the state and may raise.\<close>

fun forEach :: "('a \<Rightarrow> state \<Rightarrow> state result) \<Rightarrow> 'a list \<Rightarrow> state \<Rightarrow> state result" where
  "forEach f [] \<sigma> = ok \<sigma>"
| "forEach f (x # xs) \<sigma> = thenR (f x \<sigma>) (forEach f xs)"

text \<open>\<^verbatim>\<open>xs.slice(0, e)\<close>: a negative end counts from the end of the array.\<close>

definition slice0 :: "'a list \<Rightarrow> int \<Rightarrow> 'a list" where
  "slice0 xs e = (if e < 0 then take (nat (int (length xs) + e)) xs else take (nat e) xs)"

lemma thenR_mono [partial_function_mono]:
  assumes "mono_option B" and "\<And>y. mono_option (\<lambda>f. C y f)"
  shows "mono_option (\<lambda>f. thenR (B f) (\<lambda>y. C y f))"
proof -
  have "mono_option (\<lambda>f. case r of Inl e \<Rightarrow> Some (Inl e) | Inr y \<Rightarrow> C y f)" for r
    by (cases r) (simp_all add: option.const_mono assms)
  then show ?thesis
    unfolding thenR_def by (intro partial_function_mono assms)
qed

lemma forEach_mono [partial_function_mono]:
  assumes "\<And>x s. mono_option (\<lambda>g. f g x s)"
  shows "mono_option (\<lambda>g. forEach (f g) xs s)"
proof (induction xs arbitrary: s)
  case Nil
  show ?case by (simp add: option.const_mono)
next
  case (Cons x xs)
  show ?case
    unfolding forEach.simps
    by (intro partial_function_mono assms Cons)
qed

section \<open>Class ImmutableNode: position in the tree\<close>

definition parent :: "nat \<Rightarrow> state \<Rightarrow> nat option" where
  "parent n \<sigma> = priv_parent (heap \<sigma> n)"

definition isRoot :: "nat \<Rightarrow> state \<Rightarrow> bool" where
  "isRoot n \<sigma> = (parent n \<sigma> = None)"

text \<open>\<^verbatim>\<open>get path\<close>: the parent's path, a \<^verbatim>\<open>/\<close> and the escaped subpath; \<^verbatim>\<open>""\<close> without parent.\<close>

partial_function (option) path :: "nat \<Rightarrow> state \<Rightarrow> string option" where
  "path n \<sigma> =
     (case parent n \<sigma> of
        None \<Rightarrow> Some []
      | Some p \<Rightarrow>
          Option.bind (path p \<sigma>) (\<lambda>pp. Some (pp @ ''/'' @ escapeJsonPath (subpath (heap \<sigma> n)))))"

declare path.simps [code]

text \<open>\<^verbatim>\<open>get root\<close>: \<^verbatim>\<open>while ((p = r.parent)) r = p\<close>.\<close>

partial_function (option) root :: "nat \<Rightarrow> state \<Rightarrow> nat option" where
  "root r \<sigma> = (case parent r \<sigma> of Some p \<Rightarrow> root p \<sigma> | None \<Rightarrow> Some r)"

declare root.simps [code]

definition fireHook :: "nat \<Rightarrow> string \<Rightarrow> state \<Rightarrow> state" where
  "fireHook n name \<sigma> = (if name \<in> set (hooks (heap \<sigma> n)) then emit [HookFired n name] \<sigma> else \<sigma>)"

definition get_value :: "nat \<Rightarrow> state \<Rightarrow> jsval" where
  "get_value n \<sigma> = (if \<not> priv_isAlive (heap \<sigma> n) then Undefined else typeValue (heap \<sigma> n))"

text \<open>
  \<^verbatim>\<open>get snapshot\<close>; once \<^verbatim>\<open>finalizeDeath\<close> has put the read-only property in its place, a
  read gives that.
\<close>

definition get_snapshot :: "nat \<Rightarrow> state \<Rightarrow> jsval" where
  "get_snapshot n \<sigma> =
     (case frozenSnapshot (heap \<sigma> n) of
        Some s \<Rightarrow> s
      | None \<Rightarrow> if \<not> priv_isAlive (heap \<sigma> n) then Undefined else typeSnapshot (heap \<sigma> n))"

partial_function (option) isRunningAction :: "nat \<Rightarrow> state \<Rightarrow> bool option" where
  "isRunningAction n \<sigma> =
     (if priv_isRunningAction (heap \<sigma> n) then Some True
      else if isRoot n \<sigma> then Some False
      else case parent n \<sigma> of None \<Rightarrow> Some False | Some p \<Rightarrow> isRunningAction p \<sigma>)"

declare isRunningAction.simps [code]

definition isAlive :: "nat \<Rightarrow> state \<Rightarrow> bool" where
  "isAlive n \<sigma> = priv_isAlive (heap \<sigma> n)"

definition assertAlive :: "nat \<Rightarrow> state \<Rightarrow> unit result" where
  "assertAlive n \<sigma> = (if \<not> priv_isAlive (heap \<sigma> n) then fail NodeDied else ok ())"

text \<open>
  \<^verbatim>\<open>getChildNode\<close> and \<^verbatim>\<open>getChildren\<close> assert the node alive and ask the type descriptor,
  which looks the subpath up in \<^verbatim>\<open>children\<close>; no such child is \<^verbatim>\<open>undefined\<close> (\<^verbatim>\<open>None\<close>).
\<close>

definition getChildNode :: "nat \<Rightarrow> string \<Rightarrow> state \<Rightarrow> nat option result" where
  "getChildNode n sp \<sigma> = thenR (assertAlive n \<sigma>) (\<lambda>_. ok (map_of (children (heap \<sigma> n)) sp))"

definition getChildren :: "nat \<Rightarrow> state \<Rightarrow> nat list result" where
  "getChildren n \<sigma> = thenR (assertAlive n \<sigma>) (\<lambda>_. ok (map snd (children (heap \<sigma> n))))"

definition isProtected :: "nat \<Rightarrow> state \<Rightarrow> bool option" where
  "isProtected n \<sigma> = map_option (\<lambda>r. isProtectionEnabled (heap \<sigma> r)) (root n \<sigma>)"

text \<open>\<^verbatim>\<open>!this.isRunningAction() && this.isProtected\<close> reads the root only if no action runs.\<close>

definition assertWritable :: "nat \<Rightarrow> state \<Rightarrow> unit result" where
  "assertWritable n \<sigma> =
     thenR (assertAlive n \<sigma>) (\<lambda>_.
     thenR (lift (isRunningAction n \<sigma>)) (\<lambda>running.
       if running then ok ()
       else thenR (lift (isProtected n \<sigma>)) (\<lambda>protected.
         if protected then fail ProtectedWrite else ok ())))"

text \<open>
  Modelled from the spec: \<^verbatim>\<open>removeChild\<close> hands over to \<^verbatim>\<open>type.removeChild\<close> (absent), which
  drops the subpath from the parent's children.
\<close>

definition removeChild :: "nat \<Rightarrow> string \<Rightarrow> state \<Rightarrow> state" where
  "removeChild n sp \<sigma> =
     update_node n (\<lambda>nd. nd\<lparr>children := filter (\<lambda>kc. fst kc \<noteq> sp) (children nd)\<rparr>) \<sigma>"

text \<open>
  \<^verbatim>\<open>isStateTreeNode(value)\<close> asks for the \<^verbatim>\<open>$treenode\<close> property, which the constructor puts
  on \<^verbatim>\<open>storedValue\<close> exactly when \<^verbatim>\<open>canAttachTreeNode\<close> holds; \<^verbatim>\<open>createNode\<close> builds a \<^verbatim>\<open>Node\<close>
  in that case and an \<^verbatim>\<open>ImmutableNode\<close> otherwise. A stored value is named by its node.
\<close>

definition isStateTreeNode :: "nat \<Rightarrow> state \<Rightarrow> bool" where
  "isStateTreeNode v \<sigma> = (kind (heap \<sigma> v) = Mutable)"

definition getStateTreeNode :: "nat \<Rightarrow> state \<Rightarrow> nat result" where
  "getStateTreeNode v \<sigma> = (if isStateTreeNode v \<sigma> then ok v else fail NoStateTreeNode)"


section \<open>Death: class Node and the stubs of class ImmutableNode\<close>

text \<open>
  A method that \<^verbatim>\<open>Node\<close> overrides is written once, with the class of the receiver
  deciding which body runs: the \<^verbatim>\<open>Immutable\<close> branch is the body in \<^verbatim>\<open>ImmutableNode\<close>,
  the \<^verbatim>\<open>Mutable\<close> branch the one in \<^verbatim>\<open>Node\<close>.
\<close>

text \<open>
  \<^verbatim>\<open>Node.aboutToDie\<close>: \<^verbatim>\<open>this.disposers.splice(0).forEach(f => f())\<close> empties the list and
  calls what was in it, front first; then the \<^verbatim>\<open>beforeDestroy\<close> hook.
\<close>

definition aboutToDie :: "nat \<Rightarrow> state \<Rightarrow> state result" where
  "aboutToDie n \<sigma> =
     (case kind (heap \<sigma> n) of
        Immutable \<Rightarrow> fail (Unsupported ''aboutToDie'')
      | Mutable \<Rightarrow>
          let fs = disposers (heap \<sigma> n);
              \<sigma>1 = update_node n (\<lambda>nd. nd\<lparr>disposers := []\<rparr>) \<sigma>;
              \<sigma>2 = emit (map (DisposerCalled n) fs) \<sigma>1
          in ok (fireHook n ''beforeDestroy'' \<sigma>2))"

text \<open>
  \<^verbatim>\<open>Node.finalizeDeath\<close>: tells the root's cache, keeps the last snapshot as a read-only
  property, empties the subscriber lists, clears \<^verbatim>\<open>_isAlive\<close>, \<^verbatim>\<open>_parent\<close> and \<^verbatim>\<open>subpath\<close>
  and poisons the stored value.
\<close>

definition finalizeDeath :: "nat \<Rightarrow> state \<Rightarrow> state result" where
  "finalizeDeath n \<sigma> =
     (case kind (heap \<sigma> n) of
        Immutable \<Rightarrow> fail (Unsupported ''finalizeDeath'')
      | Mutable \<Rightarrow>
          thenR (lift (root n \<sigma>)) (\<lambda>r.
            case identifierCache (heap \<sigma> r) of
              None \<Rightarrow> fail NullDereference
            | Some c \<Rightarrow>
                let \<sigma>1 = update_node r (\<lambda>nd. nd\<lparr>identifierCache := Some (NotifyDied c n)\<rparr>) \<sigma>
                in thenR (lift (path n \<sigma>1)) (\<lambda>oldPath.
                     let snap = get_snapshot n \<sigma>1
                     in ok (update_node n (\<lambda>nd. nd\<lparr>frozenSnapshot := Some snap,
                                                   patchSubscribers := [],
                                                   snapshotSubscribers := [],
                                                   priv_isAlive := False,
                                                   priv_parent := None,
                                                   subpath := [],
                                                   poisoned := Some oldPath\<rparr>) \<sigma>1))))"

text \<open>
  Modelled from the spec: \<^verbatim>\<open>walk\<close> (\<^verbatim>\<open>mst-operations.ts\<close>, absent) goes depth-first through
  the tree-attached nodes below a stored value and hands each to the processor, the
  children of a node before the node itself and the starting node last: killing cascades
  to the children before the node. A child whose stored value is no tree node (a leaf
  held by an \<^verbatim>\<open>ImmutableNode\<close>) is passed over.
\<close>

partial_function (option) walk ::
    "(nat \<Rightarrow> state \<Rightarrow> state result) \<Rightarrow> nat \<Rightarrow> state \<Rightarrow> state result" where
  "walk processor target \<sigma> =
     thenR (getStateTreeNode target \<sigma>) (\<lambda>n.
     thenR (getChildren n \<sigma>) (\<lambda>cs.
     thenR (forEach (\<lambda>child \<sigma>'. if isStateTreeNode child \<sigma>' then walk processor child \<sigma>'
                                else ok \<sigma>') cs \<sigma>)
       (\<lambda>\<sigma>'. processor n \<sigma>')))"

declare walk.simps [code]

text \<open>
  \<^verbatim>\<open>die\<close>: nothing in \<^verbatim>\<open>ImmutableNode\<close> (``ImmutableNode never dies''); in \<^verbatim>\<open>Node\<close> nothing
  while detaching, else the two walks.
\<close>

definition die :: "nat \<Rightarrow> state \<Rightarrow> state result" where
  "die n \<sigma> =
     (case kind (heap \<sigma> n) of
        Immutable \<Rightarrow> ok \<sigma>
      | Mutable \<Rightarrow>
          if priv_isDetaching (heap \<sigma> n) then ok \<sigma>
          else if isStateTreeNode n \<sigma> then
            thenR (walk (\<lambda>child \<sigma>'. thenR (getStateTreeNode child \<sigma>') (\<lambda>m. aboutToDie m \<sigma>')) n \<sigma>)
              (walk (\<lambda>child \<sigma>'. thenR (getStateTreeNode child \<sigma>') (\<lambda>m. finalizeDeath m \<sigma>')) n)
          else ok \<sigma>)"

section \<open>Attaching: setParent\<close>

definition setParent :: "nat \<Rightarrow> nat option \<Rightarrow> string option \<Rightarrow> state \<Rightarrow> state result" where
  "setParent n newParent sp \<sigma> =
     (if parent n \<sigma> = newParent \<and> Some (subpath (heap \<sigma> n)) = sp then ok \<sigma>
      else
        thenR (case newParent of
                 None \<Rightarrow> ok ()
               | Some np \<Rightarrow>
                   if parent n \<sigma> \<noteq> None \<and> newParent \<noteq> parent n \<sigma> then fail NodeExistsTwice
                   else
                     thenR (if parent n \<sigma> = None
                            then thenR (lift (root np \<sigma>)) (\<lambda>r.
                                   if r = n then fail TreeContainsItself else ok ())
                            else ok ()) (\<lambda>_.
                       if parent n \<sigma> = None
                       then thenR (lift (root n \<sigma>)) (\<lambda>r.
                              if priv_environment (heap \<sigma> r) \<noteq> None
                              then thenR (lift (root np \<sigma>)) (\<lambda>r'.
                                     if priv_environment (heap \<sigma> r) \<noteq> priv_environment (heap \<sigma> r')
                                     then fail DifferentEnvironments else ok ())
                              else ok ())
                       else ok ())) (\<lambda>_.
          if parent n \<sigma> \<noteq> None \<and> newParent = None then die n \<sigma>
          else
            let \<sigma>1 = update_node n (\<lambda>nd. nd\<lparr>subpath := (case sp of None \<Rightarrow> [] | Some s \<Rightarrow> s)\<rparr>) \<sigma>
            in case newParent of
                 None \<Rightarrow> ok \<sigma>1
               | Some np \<Rightarrow>
                   if newParent \<noteq> parent n \<sigma>1 then
                     thenR (lift (root np \<sigma>1)) (\<lambda>r.
                       case identifierCache (heap \<sigma>1 r) of
                         None \<Rightarrow> fail NullDereference
                       | Some c \<Rightarrow>
                           let \<sigma>2 = update_node r (\<lambda>nd. nd\<lparr>identifierCache :=
                                        Some (MergeCache c n (identifierCache (heap \<sigma>1 n)))\<rparr>) \<sigma>1;
                               \<sigma>3 = update_node n (\<lambda>nd. nd\<lparr>priv_parent := Some np\<rparr>) \<sigma>2
                           in ok (fireHook n ''afterAttach'' \<sigma>3))
                   else ok \<sigma>1))"

section \<open>Relative paths and resolving\<close>

text \<open>
  The loop of \<^verbatim>\<open>getRelativePathTo\<close>: \<^verbatim>\<open>common\<close> goes up while it is inside \<^verbatim>\<open>baseParts\<close> and
  both lists agree there. Reading \<^verbatim>\<open>targetParts\<close> behind its end gives \<^verbatim>\<open>undefined\<close>, which
  equals no string.
\<close>

function common_loop :: "string list \<Rightarrow> string list \<Rightarrow> nat \<Rightarrow> nat" where
  "common_loop baseParts targetParts common =
     (if common < length baseParts
      then if \<not> (common < length targetParts \<and> baseParts ! common = targetParts ! common)
           then common
           else common_loop baseParts targetParts (Suc common)
      else common)"
  by pat_completeness auto
termination
  by (relation "measure (\<lambda>(baseParts, targetParts, common). length baseParts - common)") auto

declare common_loop.simps [simp del]

definition getRelativePathTo :: "nat \<Rightarrow> nat \<Rightarrow> state \<Rightarrow> string result" where
  "getRelativePathTo n target \<sigma> =
     thenR (lift (root n \<sigma>)) (\<lambda>r.
     thenR (lift (root target \<sigma>)) (\<lambda>r'.
       if r \<noteq> r' then fail NotSameTree
       else
         thenR (lift (path n \<sigma>)) (\<lambda>p.
         thenR (lift (path target \<sigma>)) (\<lambda>p'.
           let baseParts = splitJsonPath p;
               targetParts = splitJsonPath p';
               common = common_loop baseParts targetParts 0
           in ok (join_slash (map (\<lambda>_. ''..'') (drop common baseParts))
                  @ joinJsonPath (drop common targetParts))))))"

text \<open>
  The loop of \<^verbatim>\<open>resolvePath\<close>, at index \<open>i\<close> with the parts from there on. \<^verbatim>\<open>current\<close> is a
  node or \<^verbatim>\<open>null\<close>/\<^verbatim>\<open>undefined\<close> (\<^verbatim>\<open>None\<close>); \<^verbatim>\<open>current!.root\<close> and \<^verbatim>\<open>current!.parent\<close> on
  \<^verbatim>\<open>None\<close> are a TypeError. A child segment continues the loop without the check behind
  the branches. The error names the part and \<^verbatim>\<open>joinJsonPath(pathParts.slice(0, i - 1))\<close>.
\<close>

fun resolvePath_loop ::
    "string list \<Rightarrow> bool \<Rightarrow> nat \<Rightarrow> string list \<Rightarrow> nat option \<Rightarrow> state \<Rightarrow> nat option result" where
  "resolvePath_loop pathParts failIfResolveFails i [] current \<sigma> = ok current"
| "resolvePath_loop pathParts failIfResolveFails i (part # rest) current \<sigma> =
     (if part = [] then
        (case current of
           None \<Rightarrow> fail NullDereference
         | Some c \<Rightarrow>
             thenR (lift (root c \<sigma>)) (\<lambda>r.
               resolvePath_loop pathParts failIfResolveFails (Suc i) rest (Some r) \<sigma>))
      else if part = ''..'' then
        (case current of
           None \<Rightarrow> fail NullDereference
         | Some c \<Rightarrow>
             (case parent c \<sigma> of
                None \<Rightarrow>
                  if failIfResolveFails
                  then fail (CouldNotResolve part (joinJsonPath (slice0 pathParts (int i - 1))))
                  else ok None
              | Some p \<Rightarrow> resolvePath_loop pathParts failIfResolveFails (Suc i) rest (Some p) \<sigma>))
      else if part = ''.'' \<or> part = [] then
        resolvePath_loop pathParts failIfResolveFails (Suc i) rest current \<sigma>
      else
        (case current of
           Some c \<Rightarrow>
             thenR (getChildNode c part \<sigma>) (\<lambda>child.
               resolvePath_loop pathParts failIfResolveFails (Suc i) rest child \<sigma>)
         | None \<Rightarrow>
             if failIfResolveFails
             then fail (CouldNotResolve part (joinJsonPath (slice0 pathParts (int i - 1))))
             else ok None))"

definition resolvePath :: "nat \<Rightarrow> string list \<Rightarrow> bool \<Rightarrow> state \<Rightarrow> nat option result" where
  "resolvePath n pathParts failIfResolveFails \<sigma> =
     resolvePath_loop pathParts failIfResolveFails 0 pathParts (Some n) \<sigma>"

definition resolve :: "nat \<Rightarrow> string \<Rightarrow> bool \<Rightarrow> state \<Rightarrow> nat option result" where
  "resolve n p failIfResolveFails \<sigma> = resolvePath n (splitJsonPath p) failIfResolveFails \<sigma>"


section \<open>Detaching\<close>

definition detach :: "nat \<Rightarrow> state \<Rightarrow> state result" where
  "detach n \<sigma> =
     (if \<not> priv_isAlive (heap \<sigma> n) then fail DetachNotAlive
      else if isRoot n \<sigma> then ok \<sigma>
      else
        let \<sigma>1 = fireHook n ''beforeDetach'' \<sigma>
        in thenR (lift (root n \<sigma>1)) (\<lambda>r.
             let \<sigma>2 = update_node n (\<lambda>nd. nd\<lparr>priv_environment := priv_environment (heap \<sigma>1 r)\<rparr>) \<sigma>1;
                 \<sigma>3 = update_node n (\<lambda>nd. nd\<lparr>priv_isDetaching := True\<rparr>) \<sigma>2
             in thenR (lift (root n \<sigma>3)) (\<lambda>r'.
                  case identifierCache (heap \<sigma>3 r') of
                    None \<Rightarrow> fail NullDereference
                  | Some c \<Rightarrow>
                      let \<sigma>4 = update_node r' (\<lambda>nd. nd\<lparr>identifierCache := Some (SplitRest c n)\<rparr>) \<sigma>3;
                          \<sigma>5 = update_node n (\<lambda>nd. nd\<lparr>identifierCache := Some (SplitOff c n)\<rparr>) \<sigma>4
                      in case parent n \<sigma>5 of
                           None \<Rightarrow> fail NullDereference
                         | Some p \<Rightarrow>
                             let \<sigma>6 = removeChild p (subpath (heap \<sigma>5 n)) \<sigma>5;
                                 \<sigma>7 = update_node n (\<lambda>nd. nd\<lparr>priv_parent := None\<rparr>) \<sigma>6;
                                 \<sigma>8 = update_node n (\<lambda>nd. nd\<lparr>subpath := []\<rparr>) \<sigma>7
                             in ok (update_node n (\<lambda>nd. nd\<lparr>priv_isDetaching := False\<rparr>) \<sigma>8))))"

section \<open>Subscriptions, patches and snapshots\<close>

text \<open>
  Modelled from the spec: \<^verbatim>\<open>registerEventHandler\<close> (\<^verbatim>\<open>utils.ts\<close>, absent) puts the handler
  behind the ones registered before; the disposer it returns is not modelled.
\<close>

definition registerEventHandler :: "nat list \<Rightarrow> nat \<Rightarrow> nat list" where
  "registerEventHandler handlers handler = handlers @ [handler]"

definition onSnapshot :: "nat \<Rightarrow> nat \<Rightarrow> state \<Rightarrow> state result" where
  "onSnapshot n onChange \<sigma> =
     (case kind (heap \<sigma> n) of
        Immutable \<Rightarrow> fail (Unsupported ''onSnapshot'')
      | Mutable \<Rightarrow>
          ok (update_node n (\<lambda>nd. nd\<lparr>snapshotSubscribers :=
                registerEventHandler (snapshotSubscribers nd) onChange\<rparr>) \<sigma>))"

definition emitSnapshot :: "nat \<Rightarrow> jsval \<Rightarrow> state \<Rightarrow> state" where
  "emitSnapshot n snap \<sigma> =
     emit (map (\<lambda>f. SnapshotHandlerCalled n f snap) (snapshotSubscribers (heap \<sigma> n))) \<sigma>"

definition onPatch :: "nat \<Rightarrow> nat \<Rightarrow> state \<Rightarrow> state result" where
  "onPatch n handler \<sigma> =
     (case kind (heap \<sigma> n) of
        Immutable \<Rightarrow> fail (Unsupported ''onPatch'')
      | Mutable \<Rightarrow>
          ok (update_node n (\<lambda>nd. nd\<lparr>patchSubscribers :=
                registerEventHandler (patchSubscribers nd) handler\<rparr>) \<sigma>))"

text \<open>
  \<^verbatim>\<open>emitPatch\<close>: with subscribers, the patch gets the path
  \<^verbatim>\<open>source.path.substr(this.path.length) + "/" + basePatch.path\<close>, is split and handed to
  every subscriber; then the parent's \<^verbatim>\<open>emitPatch\<close> gets \<^verbatim>\<open>basePatch\<close>.
\<close>

partial_function (option) emitPatch ::
    "nat \<Rightarrow> reversibleJsonPatch \<Rightarrow> nat \<Rightarrow> state \<Rightarrow> state result" where
  "emitPatch n basePatch source \<sigma> =
     (case kind (heap \<sigma> n) of
        Immutable \<Rightarrow> fail (Unsupported ''emitPatch'')
      | Mutable \<Rightarrow>
          thenR (if patchSubscribers (heap \<sigma> n) \<noteq> [] then
                   thenR (lift (path source \<sigma>)) (\<lambda>sourcePath.
                   thenR (lift (path n \<sigma>)) (\<lambda>thisPath.
                     let localizedPatch =
                           ReversibleJsonPatch (rp_op basePatch)
                             (drop (length thisPath) sourcePath @ ''/'' @ rp_path basePatch)
                             (rp_value basePatch) (rp_oldValue basePatch);
                         (patch, reversePatch) = splitPatch localizedPatch
                     in ok (emit (map (\<lambda>f. PatchHandlerCalled n f patch reversePatch)
                                    (patchSubscribers (heap \<sigma> n))) \<sigma>)))
                 else ok \<sigma>) (\<lambda>\<sigma>'.
            case parent n \<sigma>' of
              Some p \<Rightarrow> emitPatch p basePatch source \<sigma>'
            | None \<Rightarrow> ok \<sigma>'))"

declare emitPatch.simps [code]

text \<open>\<^verbatim>\<open>addDisposer\<close>: \<^verbatim>\<open>this.disposers.unshift(disposer)\<close> puts it in front.\<close>

definition addDisposer :: "nat \<Rightarrow> nat \<Rightarrow> state \<Rightarrow> state result" where
  "addDisposer n disposer \<sigma> =
     (case kind (heap \<sigma> n) of
        Immutable \<Rightarrow> fail (Unsupported ''addDisposer'')
      | Mutable \<Rightarrow> ok (update_node n (\<lambda>nd. nd\<lparr>disposers := disposer # disposers nd\<rparr>) \<sigma>))"

definition addMiddleWare :: "nat \<Rightarrow> nat \<Rightarrow> state \<Rightarrow> state result" where
  "addMiddleWare n handler \<sigma> =
     (case kind (heap \<sigma> n) of
        Immutable \<Rightarrow> fail (Unsupported ''addMiddleWare'')
      | Mutable \<Rightarrow>
          ok (update_node n (\<lambda>nd. nd\<lparr>middlewares :=
                registerEventHandler (middlewares nd) handler\<rparr>) \<sigma>))"

text \<open>
  The type descriptor's \<^verbatim>\<open>applyPatchLocally\<close> and \<^verbatim>\<open>applySnapshot\<close> (absent) are parameters:
  what they do to the state is theirs. A subpath may be \<^verbatim>\<open>undefined\<close> (\<^verbatim>\<open>None\<close>).
\<close>

record typeDescriptor =
  type_applyPatchLocally :: "nat \<Rightarrow> string option \<Rightarrow> jsonPatch \<Rightarrow> state \<Rightarrow> state result"
  type_applySnapshot :: "nat \<Rightarrow> jsval \<Rightarrow> state \<Rightarrow> state result"

definition applyPatchLocally ::
    "typeDescriptor \<Rightarrow> nat \<Rightarrow> string option \<Rightarrow> jsonPatch \<Rightarrow> state \<Rightarrow> state result" where
  "applyPatchLocally T n sp patch \<sigma> =
     (case kind (heap \<sigma> n) of
        Immutable \<Rightarrow> fail (Unsupported ''applyPatchLocally'')
      | Mutable \<Rightarrow> thenR (assertWritable n \<sigma>) (\<lambda>_. type_applyPatchLocally T n sp patch \<sigma>))"

text \<open>
  Modelled from the spec: \<^verbatim>\<open>createActionInvoker\<close> (\<^verbatim>\<open>action.ts\<close>, absent) wraps a function so
  that it runs as one action which \<^verbatim>\<open>isRunningAction\<close> recognises: the node's flag is set
  while the function runs and put back afterwards.
\<close>

definition createActionInvoker :: "nat \<Rightarrow> (state \<Rightarrow> state result) \<Rightarrow> state \<Rightarrow> state result" where
  "createActionInvoker n fn \<sigma> =
     (let before = priv_isRunningAction (heap \<sigma> n)
      in thenR (fn (update_node n (\<lambda>nd. nd\<lparr>priv_isRunningAction := True\<rparr>) \<sigma>)) (\<lambda>\<sigma>'.
           ok (update_node n (\<lambda>nd. nd\<lparr>priv_isRunningAction := before\<rparr>) \<sigma>')))"

text \<open>
  \<^verbatim>\<open>applyPatches\<close> and \<^verbatim>\<open>applySnapshot\<close>: stubs in \<^verbatim>\<open>ImmutableNode\<close>, set up by \<^verbatim>\<open>preboot\<close> in
  \<^verbatim>\<open>Node\<close>. \<^verbatim>\<open>parts[parts.length - 1]\<close> of no parts is \<^verbatim>\<open>undefined\<close>.
\<close>

definition applyPatches :: "typeDescriptor \<Rightarrow> nat \<Rightarrow> jsonPatch list \<Rightarrow> state \<Rightarrow> state result" where
  "applyPatches T n patches \<sigma> =
     (case kind (heap \<sigma> n) of
        Immutable \<Rightarrow> fail (Unsupported ''applyPatches'')
      | Mutable \<Rightarrow>
          createActionInvoker n
            (forEach (\<lambda>patch \<sigma>'.
               let parts = splitJsonPath (patch_path patch)
               in thenR (resolvePath n (slice0 parts (- 1)) True \<sigma>') (\<lambda>node.
                    case node of
                      None \<Rightarrow> fail NullDereference
                    | Some m \<Rightarrow>
                        applyPatchLocally T m (if parts = [] then None else Some (last parts))
                          patch \<sigma>')) patches) \<sigma>)"

definition applySnapshot :: "typeDescriptor \<Rightarrow> nat \<Rightarrow> jsval \<Rightarrow> state \<Rightarrow> state result" where
  "applySnapshot T n snap \<sigma> =
     (case kind (heap \<sigma> n) of
        Immutable \<Rightarrow> fail (Unsupported ''applySnapshot'')
      | Mutable \<Rightarrow>
          createActionInvoker n
            (\<lambda>\<sigma>'. if strict_eq snap (get_snapshot n \<sigma>') then ok \<sigma>'
                  else type_applySnapshot T n snap \<sigma>') \<sigma>)"


section \<open>The ancestor chain\<close>

text \<open>
  The node and its ancestors, the node first and its root last. It is what the walks of
  \<^verbatim>\<open>root\<close>, \<^verbatim>\<open>path\<close>, \<^verbatim>\<open>isRunningAction\<close> and \<^verbatim>\<open>emitPatch\<close> go along; it is \<^verbatim>\<open>None\<close> when
  the parent chain does not end.
\<close>

partial_function (option) ancestor_chain :: "nat \<Rightarrow> state \<Rightarrow> nat list option" where
  "ancestor_chain n \<sigma> =
     (case parent n \<sigma> of
        None \<Rightarrow> Some [n]
      | Some p \<Rightarrow> Option.bind (ancestor_chain p \<sigma>) (\<lambda>as. Some (n # as)))"

declare ancestor_chain.simps [code]

text \<open>
  The path of a node read off its ancestor chain: the escaped subpaths from below the root
  down to the node, each behind a \<^verbatim>\<open>/\<close>.
\<close>

fun chain_path :: "state \<Rightarrow> nat list \<Rightarrow> string" where
  "chain_path \<sigma> [] = []"
| "chain_path \<sigma> [r] = []"
| "chain_path \<sigma> (n # p # as) =
     chain_path \<sigma> (p # as) @ ''/'' @ escapeJsonPath (subpath (heap \<sigma> n))"

text \<open>
  Two states have the same shape when every node has the same parent and subpath in both:
  then the paths are the same.
\<close>

definition same_shape :: "state \<Rightarrow> state \<Rightarrow> bool" where
  "same_shape \<sigma> \<sigma>' \<longleftrightarrow>
     (\<forall>m. parent m \<sigma>' = parent m \<sigma> \<and> subpath (heap \<sigma>' m) = subpath (heap \<sigma> m))"

section \<open>What the spec says of emitPatch\<close>

text \<open>
  The calls the spec asks of \<^verbatim>\<open>emitPatch\<close>, along the chain from the node to the root. At
  each node of the chain every patch subscriber, in the order of registration, gets the
  forward and reverse patch split from the base patch with its path rewritten relative
  to that node: the source's path behind that node's path, a \<^verbatim>\<open>/\<close> and the base patch's
  path. The base patch itself goes up unchanged, whether or not the node has subscribers.
\<close>

definition relative_patch :: "string \<Rightarrow> string \<Rightarrow> reversibleJsonPatch \<Rightarrow> reversibleJsonPatch" where
  "relative_patch nodePath sourcePath basePatch =
     ReversibleJsonPatch (rp_op basePatch)
       (drop (length nodePath) sourcePath @ ''/'' @ rp_path basePatch)
       (rp_value basePatch) (rp_oldValue basePatch)"

fun spec_emitPatch :: "state \<Rightarrow> reversibleJsonPatch \<Rightarrow> string \<Rightarrow> nat list \<Rightarrow> event list" where
  "spec_emitPatch \<sigma> basePatch sourcePath [] = []"
| "spec_emitPatch \<sigma> basePatch sourcePath (m # as) =
     map (\<lambda>f. PatchHandlerCalled m f
                (fst (splitPatch (relative_patch (chain_path \<sigma> (m # as)) sourcePath basePatch)))
                (snd (splitPatch (relative_patch (chain_path \<sigma> (m # as)) sourcePath basePatch))))
       (patchSubscribers (heap \<sigma> m))
     @ spec_emitPatch \<sigma> basePatch sourcePath as"

section \<open>The operations as calls\<close>

text \<open>
  The state-changing methods of a node, as a caller can invoke them one after another.
\<close>

datatype operation =
    SetParent nat "nat option" "string option"
  | Detach nat
  | Die nat
  | AboutToDie nat
  | FinalizeDeath nat
  | RemoveChild nat string
  | EmitPatch nat reversibleJsonPatch nat
  | EmitSnapshot nat jsval
  | OnPatch nat nat
  | OnSnapshot nat nat
  | AddDisposer nat nat
  | AddMiddleWare nat nat
  | ApplyPatchLocally nat "string option" jsonPatch
  | ApplyPatches nat "jsonPatch list"
  | ApplySnapshot nat jsval

fun perform :: "typeDescriptor \<Rightarrow> operation \<Rightarrow> state \<Rightarrow> state result" where
  "perform T (SetParent n newParent sp) \<sigma> = setParent n newParent sp \<sigma>"
| "perform T (Detach n) \<sigma> = detach n \<sigma>"
| "perform T (Die n) \<sigma> = die n \<sigma>"
| "perform T (AboutToDie n) \<sigma> = aboutToDie n \<sigma>"
| "perform T (FinalizeDeath n) \<sigma> = finalizeDeath n \<sigma>"
| "perform T (RemoveChild n sp) \<sigma> = ok (removeChild n sp \<sigma>)"
| "perform T (EmitPatch n basePatch source) \<sigma> = emitPatch n basePatch source \<sigma>"
| "perform T (EmitSnapshot n snap) \<sigma> = ok (emitSnapshot n snap \<sigma>)"
| "perform T (OnPatch n handler) \<sigma> = onPatch n handler \<sigma>"
| "perform T (OnSnapshot n handler) \<sigma> = onSnapshot n handler \<sigma>"
| "perform T (AddDisposer n disposer) \<sigma> = addDisposer n disposer \<sigma>"
| "perform T (AddMiddleWare n handler) \<sigma> = addMiddleWare n handler \<sigma>"
| "perform T (ApplyPatchLocally n sp patch) \<sigma> = applyPatchLocally T n sp patch \<sigma>"
| "perform T (ApplyPatches n patches) \<sigma> = applyPatches T n patches \<sigma>"
| "perform T (ApplySnapshot n snap) \<sigma> = applySnapshot T n snap \<sigma>"

definition perform_all :: "typeDescriptor \<Rightarrow> operation list \<Rightarrow> state \<Rightarrow> state result" where
  "perform_all T ops \<sigma> = forEach (perform T) ops \<sigma>"

text \<open>Every node that is dead in the first state is dead in the second.\<close>

definition dead_stay_dead :: "state \<Rightarrow> state \<Rightarrow> bool" where
  "dead_stay_dead \<sigma> \<sigma>' \<longleftrightarrow> (\<forall>m. \<not> isAlive m \<sigma> \<longrightarrow> \<not> isAlive m \<sigma>')"

text \<open>A type descriptor that revives no node.\<close>

definition type_keeps_dead :: "typeDescriptor \<Rightarrow> bool" where
  "type_keeps_dead T \<longleftrightarrow>
     (\<forall>n sp patch \<sigma> \<sigma>'. type_applyPatchLocally T n sp patch \<sigma> = ok \<sigma>' \<longrightarrow> dead_stay_dead \<sigma> \<sigma>')
     \<and> (\<forall>n snap \<sigma> \<sigma>'. type_applySnapshot T n snap \<sigma> = ok \<sigma>' \<longrightarrow> dead_stay_dead \<sigma> \<sigma>')"

section \<open>Segments and links\<close>

text \<open>
  The segments of the path of a node, read off its ancestor chain: the subpaths from below
  the root down to the node, unescaped.
\<close>

definition segments :: "state \<Rightarrow> nat list \<Rightarrow> string list" where
  "segments \<sigma> as = rev (map (\<lambda>m. subpath (heap \<sigma> m)) (butlast as))"

text \<open>The segments written one behind the other, each escaped and behind a \<^verbatim>\<open>/\<close>.\<close>

definition slashed :: "string list \<Rightarrow> string" where
  "slashed ss = concat (map (\<lambda>s. CHR ''/'' # escapeJsonPath s) ss)"

text \<open>
  A node is linked when its parent, if it has one, holds it as the child at the node's
  subpath: the child pointers and the parent pointers tell the same tree.
\<close>

definition linked :: "nat \<Rightarrow> state \<Rightarrow> bool" where
  "linked m \<sigma> \<longleftrightarrow>
     (case parent m \<sigma> of
        None \<Rightarrow> True
      | Some p \<Rightarrow> map_of (children (heap \<sigma> p)) (subpath (heap \<sigma> m)) = Some m)"

text \<open>The segments that \<^verbatim>\<open>resolvePath\<close> reads as directions and not as names of children.\<close>

definition special :: "string \<Rightarrow> bool" where
  "special s \<longleftrightarrow> s = [] \<or> s = ''.'' \<or> s = ''..''"

section \<open>The tree below a node\<close>

text \<open>
  The tree-attached nodes below a node, as a tree of node ids: what \<^verbatim>\<open>walk\<close> goes through.
\<close>

datatype ntree = NTree (root_of: nat) (subtrees: "ntree list")

text \<open>Depth first, the children of a node before the node.\<close>

fun postorder :: "ntree \<Rightarrow> nat list" where
  "postorder (NTree n ts) = concat (map postorder ts) @ [n]"

text \<open>
  A tree of ids describes the state below its root when every node of it is a \<^verbatim>\<open>Node\<close>
  whose tree-attached children, in the order of \<^verbatim>\<open>getChildren\<close>, are the roots of its
  subtrees, each of them with the node as parent.
\<close>

fun is_subtree :: "state \<Rightarrow> ntree \<Rightarrow> bool" where
  "is_subtree \<sigma> (NTree n ts) \<longleftrightarrow>
     kind (heap \<sigma> n) = Mutable
     \<and> filter (\<lambda>c. isStateTreeNode c \<sigma>) (map snd (children (heap \<sigma> n))) = map root_of ts
     \<and> (\<forall>t \<in> set ts. parent (root_of t) \<sigma> = Some n \<and> is_subtree \<sigma> t)"

text \<open>What \<^verbatim>\<open>aboutToDie\<close> makes user code see at one node: its disposers, then the hook.\<close>

definition aboutToDie_events :: "state \<Rightarrow> nat \<Rightarrow> event list" where
  "aboutToDie_events \<sigma> m =
     map (DisposerCalled m) (disposers (heap \<sigma> m))
     @ (if ''beforeDestroy'' \<in> set (hooks (heap \<sigma> m)) then [HookFired m ''beforeDestroy''] else [])"

section \<open>Frames for the cascade\<close>

text \<open>
  A processor of \<^verbatim>\<open>walk\<close> is stable when it changes neither the class nor the children
  of any node, and neither the life nor the parent of any node but the one it is given.
\<close>

definition stable :: "(nat \<Rightarrow> state \<Rightarrow> state result) \<Rightarrow> bool" where
  "stable P \<longleftrightarrow>
     (\<forall>m s s'. P m s = Some (Inr s') \<longrightarrow>
        (\<forall>k. kind (heap s' k) = kind (heap s k) \<and> children (heap s' k) = children (heap s k)
             \<and> (k \<noteq> m \<longrightarrow> isAlive k s' = isAlive k s \<and> parent k s' = parent k s)))"

text \<open>
  Two states are the same outside a set of nodes: classes and children agree everywhere,
  life and parent agree outside the set.
\<close>

definition same_outside :: "nat set \<Rightarrow> state \<Rightarrow> state \<Rightarrow> bool" where
  "same_outside D s s' \<longleftrightarrow>
     (\<forall>k. kind (heap s' k) = kind (heap s k) \<and> children (heap s' k) = children (heap s k)
          \<and> (k \<notin> D \<longrightarrow> isAlive k s' = isAlive k s \<and> parent k s' = parent k s))"

text \<open>The processors of \<^verbatim>\<open>die\<close>: \<^verbatim>\<open>child => getStateTreeNode(child).f()\<close>.\<close>

definition for_tree_node :: "(nat \<Rightarrow> state \<Rightarrow> state result) \<Rightarrow> nat \<Rightarrow> state \<Rightarrow> state result" where
  "for_tree_node f = (\<lambda>child s. thenR (getStateTreeNode child s) (\<lambda>m. f m s))"

text \<open>
  What running \<^verbatim>\<open>finalizeDeath\<close> over a list of nodes leaves behind: the nodes are dead and
  without parent, the other nodes keep life and parent, classes, children and disposers
  stay, the root keeps a cache, and no user code has run.
\<close>

definition fin_post :: "nat list \<Rightarrow> nat \<Rightarrow> state \<Rightarrow> state \<Rightarrow> bool" where
  "fin_post xs r s s' \<longleftrightarrow>
     (\<forall>m \<in> set xs. \<not> isAlive m s' \<and> parent m s' = None)
     \<and> (\<forall>k. k \<notin> set xs \<longrightarrow> parent k s' = parent k s \<and> isAlive k s' = isAlive k s)
     \<and> (\<forall>k. kind (heap s' k) = kind (heap s k) \<and> children (heap s' k) = children (heap s k)
             \<and> disposers (heap s' k) = disposers (heap s k))
     \<and> identifierCache (heap s' r) \<noteq> None
     \<and> trace s' = trace s"

section \<open>Example trees\<close>

text \<open>A fresh node without parent, children, callbacks or cache.\<close>

definition blank :: "kind \<Rightarrow> node" where
  "blank k = \<lparr>kind = k, priv_parent = None, subpath = [], priv_isRunningAction = False,
     identifierCache = None, isProtectionEnabled = True, priv_environment = None,
     priv_isAlive = True, priv_isDetaching = False, middlewares = [], snapshotSubscribers = [],
     patchSubscribers = [], disposers = [], children = [], typeValue = Undefined,
     typeSnapshot = Undefined, hooks = [], frozenSnapshot = None, poisoned = None\<rparr>"

text \<open>
  The tree \<^verbatim>\<open>{a: {b: 1}, n: {}}\<close>: node 1 is the root, node 2 lives at \<^verbatim>\<open>/a\<close>, the leaf 3
  (an \<^verbatim>\<open>ImmutableNode\<close>) at \<^verbatim>\<open>/a/b\<close> and node 4 at \<^verbatim>\<open>/n\<close>.
\<close>

definition tree_heap :: "nat \<Rightarrow> node" where
  "tree_heap =
     (\<lambda>_. blank Mutable)
     (1 := (blank Mutable)\<lparr>identifierCache := Some NewCache, children := [(''a'', 2), (''n'', 4)],
              disposers := [10, 11], patchSubscribers := [20], hooks := [''beforeDestroy''],
              typeSnapshot := Object 100 ''{a:{b:1},n:{}}''\<rparr>,
      2 := (blank Mutable)\<lparr>priv_parent := Some 1, subpath := ''a'', children := [(''b'', 3)],
              disposers := [12], patchSubscribers := [21, 22], hooks := [''beforeDetach''],
              typeSnapshot := Object 101 ''{b:1}''\<rparr>,
      3 := (blank Immutable)\<lparr>priv_parent := Some 2, subpath := ''b'',
              typeValue := Primitive ''1'', typeSnapshot := Primitive ''1''\<rparr>,
      4 := (blank Mutable)\<lparr>priv_parent := Some 1, subpath := ''n'',
              typeSnapshot := Object 102 ''{}''\<rparr>)"

definition tree_state :: state where
  "tree_state = \<lparr>heap = tree_heap, trace = []\<rparr>"

text \<open>A type descriptor that does nothing.\<close>

definition idle_type :: typeDescriptor where
  "idle_type = \<lparr>type_applyPatchLocally = (\<lambda>n sp patch \<sigma>. ok \<sigma>),
                 type_applySnapshot = (\<lambda>n snap \<sigma>. ok \<sigma>)\<rparr>"

text \<open>
  A type descriptor that does not reconcile: whatever the snapshot, its \<^verbatim>\<open>applySnapshot\<close>
  stores a new object for the key \<^verbatim>\<open>a\<close> and reports the \<^verbatim>\<open>replace\<close> patch through the
  node's \<^verbatim>\<open>emitPatch\<close>.
\<close>

definition replacing_type :: typeDescriptor where
  "replacing_type =
     \<lparr>type_applyPatchLocally = (\<lambda>n sp patch \<sigma>. ok \<sigma>),
      type_applySnapshot = (\<lambda>n snap \<sigma>.
        emitPatch n (ReversibleJsonPatch Replace ''a'' (Object 201 ''{b:1}'') (Object 101 ''{b:1}''))
          n \<sigma>)\<rparr>"

text \<open>The example tree after \<^verbatim>\<open>die()\<close> on the node at \<^verbatim>\<open>/n\<close>.\<close>

definition killed_state :: state where
  "killed_state = (case die 4 tree_state of Some (Inr \<sigma>') \<Rightarrow> \<sigma>' | _ \<Rightarrow> tree_state)"

text \<open>
  A map with the key \<^verbatim>\<open>.\<close>: node 1 is the root and node 2 its child at the subpath \<^verbatim>\<open>.\<close>.
\<close>

definition dot_state :: state where
  "dot_state =
     \<lparr>heap = (\<lambda>_. blank Mutable)
        (1 := (blank Mutable)\<lparr>identifierCache := Some NewCache, children := [(''.'', 2)]\<rparr>,
         2 := (blank Mutable)\<lparr>priv_parent := Some 1, subpath := ''.''\<rparr>),
      trace = []\<rparr>"

text \<open>The example tree after \<^verbatim>\<open>die()\<close> on its root.\<close>

definition cascade_state :: state where
  "cascade_state = (case die 1 tree_state of Some (Inr \<sigma>') \<Rightarrow> \<sigma>' | _ \<Rightarrow> tree_state)"

section \<open>Basic facts\<close>

lemma ancestor_chain_Some:
  "ancestor_chain n \<sigma> = Some as \<longleftrightarrow>
     (case parent n \<sigma> of None \<Rightarrow> as = [n]
      | Some p \<Rightarrow> \<exists>as'. ancestor_chain p \<sigma> = Some as' \<and> as = n # as')"
  by (subst ancestor_chain.simps) (auto split: option.splits simp: bind_eq_Some_conv)

lemma ancestor_chain_not_Nil: "ancestor_chain n \<sigma> \<noteq> Some []"
  by (simp add: ancestor_chain_Some split: option.splits)

lemma chain_root:
  "ancestor_chain n \<sigma> = Some as \<Longrightarrow> root n \<sigma> = Some (last as)"
proof (induction as arbitrary: n)
  case Nil
  then show ?case by (simp add: ancestor_chain_not_Nil)
next
  case (Cons a as)
  show ?case
  proof (cases "parent n \<sigma>")
    case None
    with Cons.prems show ?thesis
      by (subst root.simps) (simp add: ancestor_chain_Some)
  next
    case (Some p)
    with Cons.prems have c: "ancestor_chain p \<sigma> = Some as" and "a = n"
      by (simp_all add: ancestor_chain_Some)
    then have "as \<noteq> []" by (auto simp: ancestor_chain_not_Nil)
    with Cons.IH [OF c] Some show ?thesis
      by (subst root.simps) simp
  qed
qed

lemma chain_isRunningAction:
  "ancestor_chain n \<sigma> = Some as \<Longrightarrow>
   isRunningAction n \<sigma> = Some (\<exists>m \<in> set as. priv_isRunningAction (heap \<sigma> m))"
proof (induction as arbitrary: n)
  case Nil
  then show ?case by (simp add: ancestor_chain_not_Nil)
next
  case (Cons a as)
  show ?case
  proof (cases "parent n \<sigma>")
    case None
    with Cons.prems show ?thesis
      by (subst isRunningAction.simps) (simp add: ancestor_chain_Some isRoot_def)
  next
    case (Some p)
    with Cons.prems have c: "ancestor_chain p \<sigma> = Some as" and "a = n"
      by (simp_all add: ancestor_chain_Some)
    with Cons.IH [OF c] Some show ?thesis
      by (subst isRunningAction.simps) (simp add: isRoot_def)
  qed
qed

lemma get_snapshot_running:
  "get_snapshot n (update_node m (\<lambda>nd. nd\<lparr>priv_isRunningAction := b\<rparr>) \<sigma>) = get_snapshot n \<sigma>"
  by (simp add: get_snapshot_def update_node_def split: option.split)

lemma action_restores:
  "update_node n (\<lambda>nd. nd\<lparr>priv_isRunningAction := priv_isRunningAction (heap \<sigma> n)\<rparr>)
     (update_node n (\<lambda>nd. nd\<lparr>priv_isRunningAction := b\<rparr>) \<sigma>) = \<sigma>"
  by (simp add: update_node_def)

subsection \<open>States of the same shape\<close>

lemma heap_emit [simp]: "heap (emit es \<sigma>) = heap \<sigma>"
  by (simp add: emit_def)

lemma trace_emit [simp]: "trace (emit es \<sigma>) = trace \<sigma> @ es"
  by (simp add: emit_def)

lemma emit_emit [simp]: "emit es' (emit es \<sigma>) = emit (es @ es') \<sigma>"
  by (simp add: emit_def)

lemma emit_Nil [simp]: "emit [] \<sigma> = \<sigma>"
  by (simp add: emit_def)

lemma parent_emit [simp]: "parent n (emit es \<sigma>) = parent n \<sigma>"
  by (simp add: parent_def)

lemma update_node_emit: "update_node n f (emit es \<sigma>) = emit es (update_node n f \<sigma>)"
  by (simp add: update_node_def emit_def)

lemma path_shape_Some:
  assumes "path n \<sigma> = Some y"
  shows "\<forall>\<sigma>'. same_shape \<sigma> \<sigma>' \<longrightarrow> path n \<sigma>' = Some y"
proof (rule path.raw_induct
    [where P = "\<lambda>n \<sigma> y. \<forall>\<sigma>'. same_shape \<sigma> \<sigma>' \<longrightarrow> path n \<sigma>' = Some y", OF _ assms],
    goal_cases)
  case (1 path' n \<sigma> y)
  show ?case
  proof (intro allI impI)
    fix \<sigma>'
    assume a: "same_shape \<sigma> \<sigma>'"
    show "path n \<sigma>' = Some y"
    proof (cases "parent n \<sigma>")
      case None
      with 1(2) a show ?thesis
        by (subst path.simps) (simp add: same_shape_def)
    next
      case (Some p)
      with 1(2) obtain pp where pp: "path' p \<sigma> = Some pp"
        and y: "y = pp @ ''/'' @ escapeJsonPath (subpath (heap \<sigma> n))"
        by (auto simp: bind_eq_Some_conv)
      from 1(1) [OF pp] a have "path p \<sigma>' = Some pp" by blast
      with Some y a show ?thesis
        by (subst path.simps) (simp add: same_shape_def)
    qed
  qed
qed

lemma same_shape_sym: "same_shape \<sigma> \<sigma>' \<Longrightarrow> same_shape \<sigma>' \<sigma>"
  by (simp add: same_shape_def)

lemma path_shape: "same_shape \<sigma> \<sigma>' \<Longrightarrow> path n \<sigma>' = path n \<sigma>"
proof (cases "path n \<sigma>")
  case None
  assume a: "same_shape \<sigma> \<sigma>'"
  show ?thesis
  proof (cases "path n \<sigma>'")
    case (Some y)
    with path_shape_Some [OF Some] same_shape_sym [OF a] None show ?thesis by auto
  qed (simp add: None)
next
  case (Some y)
  assume "same_shape \<sigma> \<sigma>'"
  with path_shape_Some [OF Some] Some show ?thesis by auto
qed

lemma same_shape_emit [simp]: "same_shape \<sigma> (emit es \<sigma>)"
  by (simp add: same_shape_def)

lemma path_emit [simp]: "path n (emit es \<sigma>) = path n \<sigma>"
  by (rule path_shape) simp

lemma chain_path:
  "ancestor_chain n \<sigma> = Some as \<Longrightarrow> path n \<sigma> = Some (chain_path \<sigma> as)"
proof (induction as arbitrary: n)
  case Nil
  then show ?case by (simp add: ancestor_chain_not_Nil)
next
  case (Cons a as)
  show ?case
  proof (cases "parent n \<sigma>")
    case None
    with Cons.prems show ?thesis
      by (subst path.simps) (simp add: ancestor_chain_Some)
  next
    case (Some p)
    with Cons.prems have c: "ancestor_chain p \<sigma> = Some as" and a: "a = n"
      by (simp_all add: ancestor_chain_Some)
    then obtain b bs where as: "as = b # bs"
      by (cases as) (auto simp: ancestor_chain_not_Nil)
    from Cons.IH [OF c] Some a as show ?thesis
      by (subst path.simps) simp
  qed
qed

section \<open>Unsupported operations of an immutable node\<close>

text \<open>
  C7, as the code has it: on an immutable node \<^verbatim>\<open>applyPatchLocally\<close>, \<^verbatim>\<open>applyPatches\<close>,
  \<^verbatim>\<open>applySnapshot\<close>, \<^verbatim>\<open>onPatch\<close>, \<^verbatim>\<open>onSnapshot\<close>, \<^verbatim>\<open>addMiddleWare\<close>, \<^verbatim>\<open>aboutToDie\<close>,
  \<^verbatim>\<open>finalizeDeath\<close> and \<^verbatim>\<open>addDisposer\<close> raise the unsupported-operation error, each
  naming itself; \<^verbatim>\<open>die\<close> does not raise: it returns and leaves the state as it was.
\<close>

theorem immutable_operations_unsupported:
  assumes "kind (heap \<sigma> n) = Immutable"
  shows "applyPatchLocally T n sp patch \<sigma> = fail (Unsupported ''applyPatchLocally'')
       \<and> applyPatches T n patches \<sigma> = fail (Unsupported ''applyPatches'')
       \<and> applySnapshot T n snap \<sigma> = fail (Unsupported ''applySnapshot'')
       \<and> onPatch n h \<sigma> = fail (Unsupported ''onPatch'')
       \<and> onSnapshot n h \<sigma> = fail (Unsupported ''onSnapshot'')
       \<and> addMiddleWare n h \<sigma> = fail (Unsupported ''addMiddleWare'')
       \<and> aboutToDie n \<sigma> = fail (Unsupported ''aboutToDie'')
       \<and> finalizeDeath n \<sigma> = fail (Unsupported ''finalizeDeath'')
       \<and> addDisposer n h \<sigma> = fail (Unsupported ''addDisposer'')
       \<and> die n \<sigma> = ok \<sigma>"
  using assms
  by (simp add: applyPatchLocally_def applyPatches_def applySnapshot_def onPatch_def
      onSnapshot_def addMiddleWare_def aboutToDie_def finalizeDeath_def addDisposer_def die_def)

theorem immutable_operations_unsupported_witness:
  "kind (heap tree_state 3) = Immutable
   \<and> applyPatchLocally idle_type 3 (Some ''x'') (JsonPatch Replace ''/x'' Undefined) tree_state
       = fail (Unsupported ''applyPatchLocally'')
   \<and> applyPatches idle_type 3 [] tree_state = fail (Unsupported ''applyPatches'')
   \<and> applySnapshot idle_type 3 (Primitive ''2'') tree_state = fail (Unsupported ''applySnapshot'')
   \<and> onPatch 3 7 tree_state = fail (Unsupported ''onPatch'')
   \<and> onSnapshot 3 7 tree_state = fail (Unsupported ''onSnapshot'')
   \<and> addMiddleWare 3 7 tree_state = fail (Unsupported ''addMiddleWare'')
   \<and> aboutToDie 3 tree_state = fail (Unsupported ''aboutToDie'')
   \<and> finalizeDeath 3 tree_state = fail (Unsupported ''finalizeDeath'')
   \<and> addDisposer 3 7 tree_state = fail (Unsupported ''addDisposer'')
   \<and> die 3 tree_state = ok tree_state"
proof -
  have k: "kind (heap tree_state 3) = Immutable"
    by (simp add: tree_state_def tree_heap_def blank_def)
  show ?thesis
    using k immutable_operations_unsupported [OF k] by simp
qed

text \<open>
  C7 as stated fails for \<^verbatim>\<open>die\<close>: on the immutable leaf at \<^verbatim>\<open>/a/b\<close> it returns normally and
  is no unsupported-operation error.
\<close>

theorem immutable_die_counterexample:
  "kind (heap tree_state 3) = Immutable \<and> die 3 tree_state = ok tree_state
   \<and> die 3 tree_state \<noteq> fail (Unsupported ''die'')"
  by (simp add: die_def tree_state_def tree_heap_def blank_def ok_def fail_def)


section \<open>Reparenting\<close>

text \<open>
  C2: \<^verbatim>\<open>setParent\<close> with a new parent that differs from the parent the node has fails (a
  node cannot exist twice in the tree), whatever the subpath; \<^verbatim>\<open>setParent\<close> with the
  parent and the subpath the node has returns the state as it was: no field, no cache and
  no trace entry (no hook) changes.
\<close>

theorem setParent_guard:
  "(parent n \<sigma> = Some p \<and> np \<noteq> p \<longrightarrow> setParent n (Some np) sp \<sigma> = fail NodeExistsTwice)
   \<and> setParent n (parent n \<sigma>) (Some (subpath (heap \<sigma> n))) \<sigma> = ok \<sigma>"
  by (simp add: setParent_def thenR_def fail_def)

theorem setParent_guard_witness:
  "parent 2 tree_state = Some 1 \<and> (4::nat) \<noteq> 1
   \<and> setParent 2 (Some 4) (Some ''z'') tree_state = fail NodeExistsTwice
   \<and> setParent 2 (parent 2 tree_state) (Some (subpath (heap tree_state 2))) tree_state
       = ok tree_state"
proof -
  have p: "parent 2 tree_state = Some 1"
    by (simp add: parent_def tree_state_def tree_heap_def blank_def)
  show ?thesis
    using p setParent_guard [of 2 tree_state 1 4 "Some ''z''"] by simp
qed

section \<open>The error of resolvePath\<close>

text \<open>
  C3, at the failing input: from the root, the parts \<^verbatim>\<open>..\<close>, \<^verbatim>\<open>x\<close> with
  \<^verbatim>\<open>failIfResolveFails\<close> set. The first part cannot be resolved; the error names it, and
  as the path it names \<^verbatim>\<open>/..\<close>, which is \<^verbatim>\<open>pathParts.slice(0, -1)\<close> joined, where the path
  so far, \<^verbatim>\<open>pathParts.slice(0, 0)\<close> joined, is empty.
\<close>

theorem resolvePath_names_wrong_prefix:
  "resolvePath 1 [''..'', ''x''] True tree_state = fail (CouldNotResolve ''..'' ''/..'')
   \<and> joinJsonPath (slice0 [''..'', ''x''] 0) = []"
  by (simp add: resolvePath_def tree_state_def tree_heap_def blank_def parent_def slice0_def
      joinJsonPath_def escapeJsonPath_def)

section \<open>Applying the current snapshot\<close>

text \<open>
  C9, as the code has it: on a mutable node, \<^verbatim>\<open>applySnapshot\<close> of a snapshot that is \<^verbatim>\<open>===\<close>
  the current one (the same object, or the same primitive value) returns the state as it
  was, so nothing is changed and no subscriber is called; any other snapshot, an object
  with the content of the current one included, is handed to the type descriptor's
  \<^verbatim>\<open>applySnapshot\<close>, run as one action.
\<close>

theorem applySnapshot_short_circuit:
  assumes "kind (heap \<sigma> n) = Mutable"
  shows "applySnapshot T n snap \<sigma> =
           (if strict_eq snap (get_snapshot n \<sigma>) then ok \<sigma>
            else createActionInvoker n (type_applySnapshot T n snap) \<sigma>)"
  using assms
  by (simp add: applySnapshot_def createActionInvoker_def get_snapshot_running action_restores
      thenR_def ok_def)

theorem applySnapshot_short_circuit_witness:
  "kind (heap tree_state 1) = Mutable
   \<and> applySnapshot idle_type 1 (Object 100 ''{a:{b:1},n:{}}'') tree_state = ok tree_state"
proof -
  have k: "kind (heap tree_state 1) = Mutable"
    by (simp add: tree_state_def tree_heap_def blank_def)
  have s: "get_snapshot 1 tree_state = Object 100 ''{a:{b:1},n:{}}''"
    by (simp add: get_snapshot_def tree_state_def tree_heap_def blank_def)
  show ?thesis
    using k s applySnapshot_short_circuit [OF k, of idle_type "Object 100 ''{a:{b:1},n:{}}''"]
    by simp
qed

text \<open>
  C9 as stated fails for a snapshot that is value-equal to the current one but another
  object: the comparison is \<^verbatim>\<open>===\<close>, so the snapshot goes to the type descriptor, and with a
  type descriptor that does not reconcile the patch subscriber of the root is called: the
  call is not a no-op.
\<close>

theorem applySnapshot_value_equal_counterexample:
  "kind (heap tree_state 1) = Mutable
   \<and> get_snapshot 1 tree_state = Object 100 ''{a:{b:1},n:{}}''
   \<and> value_eq (Object 200 ''{a:{b:1},n:{}}'') (get_snapshot 1 tree_state)
   \<and> applySnapshot replacing_type 1 (Object 200 ''{a:{b:1},n:{}}'') tree_state
       = ok (emit [PatchHandlerCalled 1 20 (JsonPatch Replace ''/a'' (Object 201 ''{b:1}''))
                     (JsonPatch Replace ''/a'' (Object 101 ''{b:1}''))] tree_state)
   \<and> applySnapshot replacing_type 1 (Object 200 ''{a:{b:1},n:{}}'') tree_state \<noteq> ok tree_state"
proof -
  let ?es = "[PatchHandlerCalled 1 20 (JsonPatch Replace ''/a'' (Object 201 ''{b:1}''))
                (JsonPatch Replace ''/a'' (Object 101 ''{b:1}''))]"
  let ?A = "update_node 1 (\<lambda>nd. nd\<lparr>priv_isRunningAction := True\<rparr>) tree_state"
  have k: "kind (heap tree_state 1) = Mutable"
    and b: "priv_isRunningAction (heap tree_state 1) = False"
    by (simp_all add: tree_state_def tree_heap_def blank_def)
  have s: "get_snapshot 1 tree_state = Object 100 ''{a:{b:1},n:{}}''"
    by (simp add: get_snapshot_def tree_state_def tree_heap_def blank_def)
  have e: "emitPatch 1 (ReversibleJsonPatch Replace ''a'' (Object 201 ''{b:1}'')
             (Object 101 ''{b:1}'')) 1 ?A = ok (emit ?es ?A)"
    by (simp add: emitPatch.simps path.simps parent_def update_node_def tree_state_def
        tree_heap_def blank_def thenR_def ok_def lift_def splitPatch_def stripPatch_def
        invertPatch_def)
  have r: "update_node 1 (\<lambda>nd. nd\<lparr>priv_isRunningAction := False\<rparr>) (emit ?es ?A)
           = emit ?es tree_state"
    using action_restores [of 1 tree_state True] unfolding b by (simp add: update_node_emit)
  have a: "applySnapshot replacing_type 1 (Object 200 ''{a:{b:1},n:{}}'') tree_state
           = ok (emit ?es tree_state)"
    using r k b s e
    by (simp add: applySnapshot_def createActionInvoker_def replacing_type_def
        get_snapshot_running thenR_def ok_def)
  have "trace (emit ?es tree_state) \<noteq> trace tree_state"
    by (simp add: tree_state_def)
  then have "emit ?es tree_state \<noteq> tree_state"
    by (rule contrapos_nn) (simp only:)
  with a have n: "applySnapshot replacing_type 1 (Object 200 ''{a:{b:1},n:{}}'') tree_state
                  \<noteq> ok tree_state"
    by (simp add: ok_def)
  from k s a n show ?thesis by simp
qed

section \<open>Writability\<close>

text \<open>
  C10: for a node whose parent chain ends, \<^verbatim>\<open>isRunningAction()\<close> is true exactly when the
  node or one of its ancestors has \<^verbatim>\<open>_isRunningAction\<close> set; \<^verbatim>\<open>isProtected\<close> is the
  \<^verbatim>\<open>isProtectionEnabled\<close> flag of the root and of no other node; and on an alive node
  \<^verbatim>\<open>assertWritable\<close> raises exactly when no node from it up to the root runs an action and
  the root has protection enabled.
\<close>

theorem writability_inherited:
  assumes "ancestor_chain n \<sigma> = Some as"
  shows "isRunningAction n \<sigma> = Some (\<exists>m \<in> set as. priv_isRunningAction (heap \<sigma> m))
       \<and> isProtected n \<sigma> = Some (isProtectionEnabled (heap \<sigma> (last as)))
       \<and> (isAlive n \<sigma> \<longrightarrow>
            assertWritable n \<sigma> =
              (if (\<forall>m \<in> set as. \<not> priv_isRunningAction (heap \<sigma> m))
                  \<and> isProtectionEnabled (heap \<sigma> (last as))
               then fail ProtectedWrite else ok ()))"
  using chain_isRunningAction [OF assms] chain_root [OF assms]
  by (simp add: isProtected_def assertWritable_def assertAlive_def isAlive_def thenR_def
      lift_def ok_def fail_def)

theorem writability_inherited_witness:
  "ancestor_chain 3 tree_state = Some [3, 2, 1]
   \<and> isRunningAction 3 tree_state = Some False
   \<and> isProtected 3 tree_state = Some True
   \<and> isAlive 3 tree_state
   \<and> assertWritable 3 tree_state = fail ProtectedWrite"
proof -
  have c: "ancestor_chain 3 tree_state = Some [3, 2, 1]"
    by (simp add: ancestor_chain.simps parent_def tree_state_def tree_heap_def blank_def)
  have a: "isAlive 3 tree_state"
    by (simp add: isAlive_def tree_state_def tree_heap_def blank_def)
  show ?thesis
    using c a writability_inherited [OF c]
    by (simp add: tree_state_def tree_heap_def blank_def)
qed

section \<open>Patches travel up\<close>

lemma emitPatch_chain:
  assumes "path source \<sigma> = Some sourcePath"
  shows "ancestor_chain n \<sigma> = Some as \<Longrightarrow> \<forall>m \<in> set as. kind (heap \<sigma> m) = Mutable \<Longrightarrow>
         emitPatch n basePatch source (emit es \<sigma>)
           = ok (emit (es @ spec_emitPatch \<sigma> basePatch sourcePath as) \<sigma>)"
proof (induction as arbitrary: n es)
  case Nil
  then show ?case by (simp add: ancestor_chain_not_Nil)
next
  case (Cons a as)
  from Cons.prems(1) have a: "a = n"
    by (auto simp: ancestor_chain_Some split: option.splits)
  have p: "path n \<sigma> = Some (chain_path \<sigma> (n # as))"
    using chain_path [OF Cons.prems(1)] a by simp
  have k: "kind (heap \<sigma> n) = Mutable" using Cons.prems(2) a by simp
  show ?case
  proof (cases "parent n \<sigma>")
    case None
    with Cons.prems(1) have "as = []" by (simp add: ancestor_chain_Some)
    with None a k p assms show ?thesis
      by (subst emitPatch.simps)
        (simp add: thenR_def lift_def ok_def splitPatch_def relative_patch_def Let_def)
  next
    case (Some q)
    with Cons.prems(1) have c: "ancestor_chain q \<sigma> = Some as"
      by (simp add: ancestor_chain_Some)
    have m: "\<forall>m \<in> set as. kind (heap \<sigma> m) = Mutable" using Cons.prems(2) by simp
    note IH = Cons.IH [OF c m]
    show ?thesis
      using Some a k p assms IH [of es]
        IH [of "es @ map (\<lambda>f. PatchHandlerCalled n f
                (fst (splitPatch (relative_patch (chain_path \<sigma> (n # as)) sourcePath basePatch)))
                (snd (splitPatch (relative_patch (chain_path \<sigma> (n # as)) sourcePath basePatch))))
              (patchSubscribers (heap \<sigma> n))"]
      by (subst emitPatch.simps)
        (simp add: thenR_def lift_def ok_def splitPatch_def relative_patch_def Let_def)
  qed
qed

text \<open>
  C5: \<^verbatim>\<open>emitPatch\<close> on a mutable node whose ancestors are mutable does what the spec says
  (\<open>spec_emitPatch\<close>): at the node and at every ancestor up to the root, each patch
  subscriber is called, in the order of registration, with the forward and reverse patch
  whose path is the source's path behind that node's own path, a \<^verbatim>\<open>/\<close> and the base patch's
  path; every node of the chain starts from the same, unchanged base patch, with or without
  subscribers of its own; nothing else changes.
\<close>

theorem emitPatch_relative_to_each_ancestor:
  assumes "ancestor_chain n \<sigma> = Some as"
    and "\<forall>m \<in> set as. kind (heap \<sigma> m) = Mutable"
    and "path source \<sigma> = Some sourcePath"
  shows "emitPatch n basePatch source \<sigma>
           = ok (emit (spec_emitPatch \<sigma> basePatch sourcePath as) \<sigma>)"
  using emitPatch_chain [OF assms(3) assms(1) assms(2), of basePatch "[]"] by simp

theorem emitPatch_relative_to_each_ancestor_witness:
  "ancestor_chain 2 tree_state = Some [2, 1]
   \<and> kind (heap tree_state 2) = Mutable \<and> kind (heap tree_state 1) = Mutable
   \<and> path 2 tree_state = Some ''/a''
   \<and> emitPatch 2 (ReversibleJsonPatch Replace ''b'' (Primitive ''2'') (Primitive ''1'')) 2 tree_state
       = ok (tree_state\<lparr>trace :=
           [PatchHandlerCalled 2 21 (JsonPatch Replace ''/b'' (Primitive ''2''))
                                    (JsonPatch Replace ''/b'' (Primitive ''1'')),
            PatchHandlerCalled 2 22 (JsonPatch Replace ''/b'' (Primitive ''2''))
                                    (JsonPatch Replace ''/b'' (Primitive ''1'')),
            PatchHandlerCalled 1 20 (JsonPatch Replace ''/a/b'' (Primitive ''2''))
                                    (JsonPatch Replace ''/a/b'' (Primitive ''1''))]\<rparr>)"
proof -
  have c: "ancestor_chain 2 tree_state = Some [2, 1]"
    by (simp add: ancestor_chain.simps parent_def tree_state_def tree_heap_def blank_def)
  have m: "\<forall>m \<in> set [2, 1]. kind (heap tree_state m) = Mutable"
    by (simp add: tree_state_def tree_heap_def blank_def)
  have p: "path 2 tree_state = Some ''/a''"
    by (simp add: path.simps parent_def tree_state_def tree_heap_def blank_def escapeJsonPath_def)
  have e: "spec_emitPatch tree_state
             (ReversibleJsonPatch Replace ''b'' (Primitive ''2'') (Primitive ''1'')) ''/a'' [2, 1]
           = [PatchHandlerCalled 2 21 (JsonPatch Replace ''/b'' (Primitive ''2''))
                                      (JsonPatch Replace ''/b'' (Primitive ''1'')),
              PatchHandlerCalled 2 22 (JsonPatch Replace ''/b'' (Primitive ''2''))
                                      (JsonPatch Replace ''/b'' (Primitive ''1'')),
              PatchHandlerCalled 1 20 (JsonPatch Replace ''/a/b'' (Primitive ''2''))
                                      (JsonPatch Replace ''/a/b'' (Primitive ''1''))]"
    by (simp add: relative_patch_def splitPatch_def stripPatch_def invertPatch_def
        escapeJsonPath_def tree_state_def tree_heap_def blank_def)
  have t: "emit es tree_state = tree_state\<lparr>trace := es\<rparr>" for es
    by (simp add: emit_def tree_state_def)
  have k: "kind (heap tree_state 2) = Mutable \<and> kind (heap tree_state 1) = Mutable"
    using m by simp
  show ?thesis
    using c k p emitPatch_relative_to_each_ancestor [OF c m p,
        of "ReversibleJsonPatch Replace ''b'' (Primitive ''2'') (Primitive ''1'')"]
    by (simp only: e t)
qed

section \<open>Death is final\<close>

lemma thenR_ok:
  "thenR m f = Some (Inr y) \<longleftrightarrow> (\<exists>x. m = Some (Inr x) \<and> f x = Some (Inr y))"
  by (cases m) (auto simp: thenR_def split: sum.splits)

lemma dead_refl [simp]: "dead_stay_dead \<sigma> \<sigma>"
  by (simp add: dead_stay_dead_def)

lemma dead_trans: "dead_stay_dead \<sigma> \<sigma>' \<Longrightarrow> dead_stay_dead \<sigma>' \<sigma>'' \<Longrightarrow> dead_stay_dead \<sigma> \<sigma>''"
  by (simp add: dead_stay_dead_def)

lemma dead_update:
  "(priv_isAlive (f (heap \<sigma> n)) \<longrightarrow> priv_isAlive (heap \<sigma> n)) \<Longrightarrow>
   dead_stay_dead \<sigma> (update_node n f \<sigma>)"
  by (auto simp: dead_stay_dead_def isAlive_def update_node_def)

lemma dead_emit [simp]: "dead_stay_dead \<sigma> (emit es \<sigma>)"
  by (simp add: dead_stay_dead_def isAlive_def)

lemma dead_fireHook [simp]: "dead_stay_dead \<sigma> (fireHook n name \<sigma>)"
  by (simp add: fireHook_def)

lemma dead_same_heap: "heap \<sigma>' = heap \<sigma> \<Longrightarrow> dead_stay_dead \<sigma> \<sigma>'"
  by (simp add: dead_stay_dead_def isAlive_def)

lemma forEach_dead:
  assumes "\<And>x s s'. x \<in> set xs \<Longrightarrow> f x s = Some (Inr s') \<Longrightarrow> dead_stay_dead s s'"
  shows "forEach f xs \<sigma> = Some (Inr \<sigma>') \<Longrightarrow> dead_stay_dead \<sigma> \<sigma>'"
  using assms
proof (induction xs arbitrary: \<sigma>)
  case Nil
  then show ?case by (simp add: ok_def)
next
  case (Cons x xs)
  from Cons.prems(1) obtain s where s: "f x \<sigma> = Some (Inr s)" and r: "forEach f xs s = Some (Inr \<sigma>')"
    by (auto simp: thenR_ok)
  have "dead_stay_dead \<sigma> s" using Cons.prems(2) [OF _ s] by simp
  moreover have "dead_stay_dead s \<sigma>'"
  proof (rule Cons.IH [OF r])
    fix y t t'
    assume "y \<in> set xs" and "f y t = Some (Inr t')"
    then show "dead_stay_dead t t'" using Cons.prems(2) [of y t t'] by simp
  qed
  ultimately show ?case by (rule dead_trans)
qed

lemma walk_dead:
  assumes w: "walk processor target \<sigma> = Some y"
  shows "(\<forall>n s s'. processor n s = Some (Inr s') \<longrightarrow> dead_stay_dead s s') \<longrightarrow>
         (\<forall>\<sigma>'. y = Inr \<sigma>' \<longrightarrow> dead_stay_dead \<sigma> \<sigma>')"
proof (rule walk.raw_induct
    [where P = "\<lambda>processor target \<sigma> y.
        (\<forall>n s s'. processor n s = Some (Inr s') \<longrightarrow> dead_stay_dead s s') \<longrightarrow>
        (\<forall>\<sigma>'. y = Inr \<sigma>' \<longrightarrow> dead_stay_dead \<sigma> \<sigma>')", OF _ w], goal_cases)
  case (1 walk' processor target \<sigma> y)
  show ?case
  proof (intro impI allI)
    fix \<sigma>'
    assume P: "\<forall>n s s'. processor n s = Some (Inr s') \<longrightarrow> dead_stay_dead s s'" and y: "y = Inr \<sigma>'"
    from 1(2) y obtain n cs s1 where
      f: "forEach (\<lambda>child s. if isStateTreeNode child s then walk' processor child s else ok s) cs \<sigma>
            = Some (Inr s1)"
      and p: "processor n s1 = Some (Inr \<sigma>')"
      by (auto simp: thenR_ok)
    have "dead_stay_dead \<sigma> s1"
    proof (rule forEach_dead [OF _ f])
      fix x s s'
      assume "(if isStateTreeNode x s then walk' processor x s else ok s) = Some (Inr s')"
      then show "dead_stay_dead s s'"
        using 1(1) P by (auto simp: ok_def split: if_splits)
    qed
    moreover have "dead_stay_dead s1 \<sigma>'" using P p by blast
    ultimately show "dead_stay_dead \<sigma> \<sigma>'" by (rule dead_trans)
  qed
qed

lemma aboutToDie_dead: "aboutToDie n \<sigma> = Some (Inr \<sigma>') \<Longrightarrow> dead_stay_dead \<sigma> \<sigma>'"
  by (auto simp: aboutToDie_def ok_def fail_def Let_def fireHook_def dead_stay_dead_def
      isAlive_def update_node_def split: kind.splits if_splits)

lemma finalizeDeath_dead: "finalizeDeath n \<sigma> = Some (Inr \<sigma>') \<Longrightarrow> dead_stay_dead \<sigma> \<sigma>'"
  by (auto simp: finalizeDeath_def ok_def fail_def Let_def dead_stay_dead_def thenR_ok
      isAlive_def update_node_def split: kind.splits option.splits if_splits)

lemma die_dead: "die n \<sigma> = Some (Inr \<sigma>') \<Longrightarrow> dead_stay_dead \<sigma> \<sigma>'"
proof -
  assume d: "die n \<sigma> = Some (Inr \<sigma>')"
  have a: "\<forall>m s s'. thenR (getStateTreeNode m s) (\<lambda>k. aboutToDie k s) = Some (Inr s')
             \<longrightarrow> dead_stay_dead s s'"
    by (auto simp: thenR_ok dest: aboutToDie_dead)
  have f: "\<forall>m s s'. thenR (getStateTreeNode m s) (\<lambda>k. finalizeDeath k s) = Some (Inr s')
             \<longrightarrow> dead_stay_dead s s'"
    by (auto simp: thenR_ok dest: finalizeDeath_dead)
  show ?thesis
  proof (cases "kind (heap \<sigma> n) = Mutable \<and> \<not> priv_isDetaching (heap \<sigma> n) \<and> isStateTreeNode n \<sigma>")
    case True
    with d obtain s1 where
      w1: "walk (\<lambda>child s. thenR (getStateTreeNode child s) (\<lambda>m. aboutToDie m s)) n \<sigma> = Some (Inr s1)"
      and w2: "walk (\<lambda>child s. thenR (getStateTreeNode child s) (\<lambda>m. finalizeDeath m s)) n s1 = Some (Inr \<sigma>')"
      by (auto simp: die_def thenR_ok)
    from walk_dead [OF w1] a have "dead_stay_dead \<sigma> s1" by blast
    moreover from walk_dead [OF w2] f have "dead_stay_dead s1 \<sigma>'" by blast
    ultimately show ?thesis by (rule dead_trans)
  next
    case False
    with d show ?thesis
      by (auto simp: die_def ok_def split: kind.splits if_splits)
  qed
qed


lemma setParent_dead: "setParent n newParent sp \<sigma> = Some (Inr \<sigma>') \<Longrightarrow> dead_stay_dead \<sigma> \<sigma>'"
proof -
  assume d: "setParent n newParent sp \<sigma> = Some (Inr \<sigma>')"
  show ?thesis
  proof (cases "parent n \<sigma> = newParent \<and> Some (subpath (heap \<sigma> n)) = sp")
    case True
    with d show ?thesis by (simp add: setParent_def ok_def)
  next
    case False
    note nochange = False
    show ?thesis
    proof (cases "parent n \<sigma> \<noteq> None \<and> newParent = None")
      case True
      with d nochange have "die n \<sigma> = Some (Inr \<sigma>')"
        by (auto simp: setParent_def thenR_ok)
      then show ?thesis by (rule die_dead)
    next
      case False
      with d nochange show ?thesis
        by (auto simp: setParent_def thenR_ok ok_def fail_def Let_def fireHook_def
            dead_stay_dead_def isAlive_def update_node_def split: option.splits if_splits)
    qed
  qed
qed

lemma isAlive_update_node:
  "(\<And>nd. priv_isAlive (f nd) = priv_isAlive nd) \<Longrightarrow> isAlive m (update_node n f \<sigma>) = isAlive m \<sigma>"
  by (simp add: isAlive_def update_node_def)

lemma isAlive_emit [simp]: "isAlive m (emit es \<sigma>) = isAlive m \<sigma>"
  by (simp add: isAlive_def)

lemma isAlive_fireHook [simp]: "isAlive m (fireHook n name \<sigma>) = isAlive m \<sigma>"
  by (simp add: fireHook_def)

lemma isAlive_removeChild [simp]: "isAlive m (removeChild n sp \<sigma>) = isAlive m \<sigma>"
  by (simp add: removeChild_def isAlive_update_node)

lemma fail_not_ok [simp]: "fail e \<noteq> Some (Inr y)"
  by (simp add: fail_def)

lemma ok_eq [simp]: "ok x = Some (Inr y) \<longleftrightarrow> x = y"
  by (simp add: ok_def)

lemma lift_ok [simp]: "lift m = Some (Inr x) \<longleftrightarrow> m = Some x"
  by (cases m) (simp_all add: lift_def)

lemma case_option_fail_ok:
  "(case x of None \<Rightarrow> fail e | Some c \<Rightarrow> f c) = Some (Inr y) \<longleftrightarrow> (\<exists>c. x = Some c \<and> f c = Some (Inr y))"
  by (cases x) simp_all

lemma detach_dead: "detach n \<sigma> = Some (Inr \<sigma>') \<Longrightarrow> dead_stay_dead \<sigma> \<sigma>'"
  unfolding dead_stay_dead_def
  by (cases "priv_isAlive (heap \<sigma> n)"; cases "isRoot n \<sigma>")
    (auto simp: detach_def thenR_ok Let_def isAlive_update_node case_option_fail_ok)

lemma emitPatch_heap:
  assumes e: "emitPatch n basePatch source \<sigma> = Some y"
  shows "\<forall>\<sigma>'. y = Inr \<sigma>' \<longrightarrow> heap \<sigma>' = heap \<sigma>"
proof (rule emitPatch.raw_induct
    [where P = "\<lambda>n basePatch source \<sigma> y. \<forall>\<sigma>'. y = Inr \<sigma>' \<longrightarrow> heap \<sigma>' = heap \<sigma>", OF _ e],
    goal_cases)
  case (1 emitPatch' n basePatch source \<sigma> y)
  show ?case
  proof (intro allI impI)
    fix \<sigma>'
    assume y: "y = Inr \<sigma>'"
    with 1(2) have k: "kind (heap \<sigma> n) = Mutable"
      by (auto simp: fail_def split: kind.splits)
    let ?first = "if patchSubscribers (heap \<sigma> n) \<noteq> [] then
                   thenR (lift (path source \<sigma>)) (\<lambda>sourcePath.
                   thenR (lift (path n \<sigma>)) (\<lambda>thisPath.
                     let localizedPatch =
                           ReversibleJsonPatch (rp_op basePatch)
                             (drop (length thisPath) sourcePath @ ''/'' @ rp_path basePatch)
                             (rp_value basePatch) (rp_oldValue basePatch);
                         (patch, reversePatch) = splitPatch localizedPatch
                     in ok (emit (map (\<lambda>f. PatchHandlerCalled n f patch reversePatch)
                                    (patchSubscribers (heap \<sigma> n))) \<sigma>)))
                 else ok \<sigma>"
    have first: "heap s = heap \<sigma>" if "?first = Some (Inr s)" for s
      using that by (auto simp: thenR_ok ok_def Let_def case_prod_beta split: if_splits)
    from 1(2) y k obtain s1 where f: "?first = Some (Inr s1)"
      and r: "(case parent n s1 of Some p \<Rightarrow> emitPatch' p basePatch source s1 | None \<Rightarrow> ok s1)
              = Some (Inr \<sigma>')"
      by (auto simp: thenR_ok)
    note s1 = first [OF f]
    show "heap \<sigma>' = heap \<sigma>"
    proof (cases "parent n s1")
      case None
      with r s1 show ?thesis by (simp add: ok_def)
    next
      case (Some p)
      with r have "emitPatch' p basePatch source s1 = Some (Inr \<sigma>')" by simp
      from 1(1) [OF this] s1 show ?thesis by simp
    qed
  qed
qed

lemma emitPatch_dead: "emitPatch n basePatch source \<sigma> = Some (Inr \<sigma>') \<Longrightarrow> dead_stay_dead \<sigma> \<sigma>'"
  using emitPatch_heap [of n basePatch source \<sigma> "Inr \<sigma>'"] by (simp add: dead_same_heap)

lemma createActionInvoker_dead:
  assumes "\<And>s s'. fn s = Some (Inr s') \<Longrightarrow> dead_stay_dead s s'"
  shows "createActionInvoker n fn \<sigma> = Some (Inr \<sigma>') \<Longrightarrow> dead_stay_dead \<sigma> \<sigma>'"
proof -
  assume "createActionInvoker n fn \<sigma> = Some (Inr \<sigma>')"
  then obtain s1 where f: "fn (update_node n (\<lambda>nd. nd\<lparr>priv_isRunningAction := True\<rparr>) \<sigma>) = Some (Inr s1)"
    and s: "\<sigma>' = update_node n (\<lambda>nd. nd\<lparr>priv_isRunningAction := priv_isRunningAction (heap \<sigma> n)\<rparr>) s1"
    by (auto simp: createActionInvoker_def thenR_ok ok_def Let_def)
  have "dead_stay_dead \<sigma> (update_node n (\<lambda>nd. nd\<lparr>priv_isRunningAction := True\<rparr>) \<sigma>)"
    by (rule dead_update) simp
  moreover note assms [OF f]
  moreover have "dead_stay_dead s1 \<sigma>'" unfolding s by (rule dead_update) simp
  ultimately show ?thesis by (blast intro: dead_trans)
qed

lemma applyPatchLocally_dead:
  "type_keeps_dead T \<Longrightarrow> applyPatchLocally T n sp patch \<sigma> = Some (Inr \<sigma>') \<Longrightarrow> dead_stay_dead \<sigma> \<sigma>'"
  by (auto simp: applyPatchLocally_def thenR_ok type_keeps_dead_def ok_def fail_def split: kind.splits)

lemma applySnapshot_dead:
  assumes T: "type_keeps_dead T" and a: "applySnapshot T n snap \<sigma> = Some (Inr \<sigma>')"
  shows "dead_stay_dead \<sigma> \<sigma>'"
proof -
  from a have "createActionInvoker n
            (\<lambda>\<sigma>'. if strict_eq snap (get_snapshot n \<sigma>') then ok \<sigma>'
                  else type_applySnapshot T n snap \<sigma>') \<sigma> = Some (Inr \<sigma>')"
    by (auto simp: applySnapshot_def fail_def split: kind.splits)
  then show ?thesis
  proof (rule createActionInvoker_dead [rotated])
    fix s s'
    assume "(if strict_eq snap (get_snapshot n s) then ok s else type_applySnapshot T n snap s) = Some (Inr s')"
    then show "dead_stay_dead s s'"
      using T by (auto simp: type_keeps_dead_def ok_def split: if_splits)
  qed
qed

lemma applyPatches_dead:
  assumes T: "type_keeps_dead T" and a: "applyPatches T n patches \<sigma> = Some (Inr \<sigma>')"
  shows "dead_stay_dead \<sigma> \<sigma>'"
proof -
  let ?f = "\<lambda>patch \<sigma>'.
               let parts = splitJsonPath (patch_path patch)
               in thenR (resolvePath n (slice0 parts (- 1)) True \<sigma>') (\<lambda>node.
                    case node of
                      None \<Rightarrow> fail NullDereference
                    | Some m \<Rightarrow>
                        applyPatchLocally T m (if parts = [] then None else Some (last parts))
                          patch \<sigma>')"
  from a have "createActionInvoker n (forEach ?f patches) \<sigma> = Some (Inr \<sigma>')"
    by (auto simp: applyPatches_def fail_def split: kind.splits)
  then show ?thesis
  proof (rule createActionInvoker_dead [rotated])
    fix s s'
    assume "forEach ?f patches s = Some (Inr s')"
    then show "dead_stay_dead s s'"
    proof (rule forEach_dead [rotated])
      fix x t t'
      assume "?f x t = Some (Inr t')"
      then show "dead_stay_dead t t'"
        using T by (auto simp: Let_def thenR_ok fail_def split: option.splits
            dest: applyPatchLocally_dead)
    qed
  qed
qed

lemma perform_dead:
  "type_keeps_dead T \<Longrightarrow> perform T opn \<sigma> = Some (Inr \<sigma>') \<Longrightarrow> dead_stay_dead \<sigma> \<sigma>'"
proof (cases opn)
qed (auto simp: ok_def removeChild_def emitSnapshot_def onPatch_def onSnapshot_def addDisposer_def
      addMiddleWare_def fail_def
      intro: setParent_dead detach_dead die_dead aboutToDie_dead finalizeDeath_dead
        emitPatch_dead applyPatchLocally_dead applyPatches_dead applySnapshot_dead dead_update
      split: kind.splits)

lemma perform_all_dead:
  "type_keeps_dead T \<Longrightarrow> perform_all T ops \<sigma> = Some (Inr \<sigma>') \<Longrightarrow> dead_stay_dead \<sigma> \<sigma>'"
  unfolding perform_all_def
  by (erule forEach_dead [rotated]) (rule perform_dead)

lemmas tree_eval = die_def walk.simps isStateTreeNode_def getStateTreeNode_def getChildren_def
  assertAlive_def aboutToDie_def finalizeDeath_def tree_state_def tree_heap_def blank_def
  parent_def thenR_def ok_def fail_def update_node_def emit_def fireHook_def root.simps
  path.simps lift_def get_snapshot_def get_value_def escapeJsonPath_def isAlive_def

lemma die_4_returns: "\<exists>s. die 4 tree_state = Some (Inr s)"
  by (simp add: tree_eval)

text \<open>
  C8, as the code has it: a node that is dead stays dead through every sequence of node
  operations that returns (with a type descriptor that revives nothing: no line of
  \<^verbatim>\<open>node.ts\<close> sets \<^verbatim>\<open>_isAlive\<close> back); on a dead node \<^verbatim>\<open>getChildNode\<close> and \<^verbatim>\<open>getChildren\<close>
  raise the dead-node error; reading \<^verbatim>\<open>value\<close> does not raise but gives \<^verbatim>\<open>undefined\<close>, and
  reading \<^verbatim>\<open>snapshot\<close> does not raise but gives the last snapshot that \<^verbatim>\<open>finalizeDeath\<close>
  kept, or \<^verbatim>\<open>undefined\<close> when there is none.
\<close>

theorem dead_node_access:
  assumes "type_keeps_dead T" and "\<not> isAlive n \<sigma>"
  shows "(perform_all T ops \<sigma> = ok \<sigma>' \<longrightarrow> \<not> isAlive n \<sigma>')
       \<and> getChildNode n sp \<sigma> = fail NodeDied
       \<and> getChildren n \<sigma> = fail NodeDied
       \<and> get_value n \<sigma> = Undefined
       \<and> get_snapshot n \<sigma> = (case frozenSnapshot (heap \<sigma> n) of Some s \<Rightarrow> s | None \<Rightarrow> Undefined)"
  using assms perform_all_dead [of T ops \<sigma> \<sigma>']
  by (auto simp: ok_def dead_stay_dead_def getChildNode_def getChildren_def assertAlive_def
      thenR_def fail_def get_value_def get_snapshot_def isAlive_def split: option.splits)

theorem dead_node_access_witness:
  "type_keeps_dead idle_type \<and> \<not> isAlive 4 killed_state
   \<and> perform_all idle_type [OnPatch 4 5] killed_state
       = ok (update_node 4 (\<lambda>nd. nd\<lparr>patchSubscribers := [5]\<rparr>) killed_state)
   \<and> \<not> isAlive 4 (update_node 4 (\<lambda>nd. nd\<lparr>patchSubscribers := [5]\<rparr>) killed_state)
   \<and> getChildNode 4 ''b'' killed_state = fail NodeDied
   \<and> getChildren 4 killed_state = fail NodeDied
   \<and> get_value 4 killed_state = Undefined
   \<and> get_snapshot 4 killed_state = Object 102 ''{}''"
proof -
  have T: "type_keeps_dead idle_type"
    by (simp add: type_keeps_dead_def idle_type_def ok_def)
  have d: "\<not> isAlive 4 killed_state"
    by (simp add: killed_state_def tree_eval)
  have k: "kind (heap killed_state 4) = Mutable"
    and s: "patchSubscribers (heap killed_state 4) = []"
    and f: "frozenSnapshot (heap killed_state 4) = Some (Object 102 ''{}'')"
    by (simp_all add: killed_state_def tree_eval)
  have p: "perform_all idle_type [OnPatch 4 5] killed_state
           = ok (update_node 4 (\<lambda>nd. nd\<lparr>patchSubscribers := [5]\<rparr>) killed_state)"
    using k s by (simp add: perform_all_def onPatch_def registerEventHandler_def thenR_def
        ok_def update_node_def)
  show ?thesis
    using T d p f dead_node_access [OF T d, of "[OnPatch 4 5]"
        "update_node 4 (\<lambda>nd. nd\<lparr>patchSubscribers := [5]\<rparr>) killed_state" "''b''"]
    by simp
qed

text \<open>
  C8 as stated fails for the reads: after \<^verbatim>\<open>die()\<close> on the node at \<^verbatim>\<open>/n\<close> of the example
  tree the node is dead, and reading its \<^verbatim>\<open>value\<close> and its \<^verbatim>\<open>snapshot\<close> returns
  (\<^verbatim>\<open>undefined\<close>, and the last snapshot) where the claim has them raise.
\<close>

theorem dead_node_read_counterexample:
  "die 4 tree_state = ok killed_state \<and> \<not> isAlive 4 killed_state
   \<and> get_value 4 killed_state = Undefined
   \<and> get_snapshot 4 killed_state = Object 102 ''{}''"
proof -
  have "die 4 tree_state = ok killed_state"
    using die_4_returns by (auto simp: killed_state_def ok_def)
  moreover have "\<not> isAlive 4 killed_state"
    by (simp add: killed_state_def tree_eval)
  moreover have "get_value 4 killed_state = Undefined"
    by (simp add: killed_state_def tree_eval)
  moreover have "get_snapshot 4 killed_state = Object 102 ''{}''"
    by (simp add: killed_state_def tree_eval)
  ultimately show ?thesis by simp
qed

section \<open>Ancestor chains\<close>

lemma chain_head: "ancestor_chain n \<sigma> = Some as \<Longrightarrow> \<exists>as'. as = n # as'"
  by (subst (asm) ancestor_chain.simps) (auto split: option.splits simp: bind_eq_Some_conv)

lemma chain_tail:
  "ancestor_chain n \<sigma> = Some (n # p # as) \<Longrightarrow> parent n \<sigma> = Some p \<and> ancestor_chain p \<sigma> = Some (p # as)"
  by (auto simp: ancestor_chain_Some [of n] split: option.splits dest: chain_head)

lemma chain_single: "ancestor_chain n \<sigma> = Some [m] \<Longrightarrow> parent n \<sigma> = None \<and> m = n"
  by (auto simp: ancestor_chain_Some [of n] ancestor_chain_not_Nil split: option.splits)

lemma chain_suffix:
  "ancestor_chain n \<sigma> = Some as \<Longrightarrow> m \<in> set as \<Longrightarrow>
   \<exists>cs bs. as = cs @ bs \<and> ancestor_chain m \<sigma> = Some bs"
proof (induction as arbitrary: n)
  case Nil
  then show ?case by simp
next
  case (Cons a as)
  from Cons.prems(1) have a: "a = n" by (auto dest: chain_head)
  show ?case
  proof (cases "m = n")
    case True
    with Cons.prems(1) a show ?thesis by (intro exI [of _ "[]"] exI [of _ "a # as"]) simp
  next
    case False
    with Cons.prems(2) a have m: "m \<in> set as" by simp
    then obtain p as' where as: "as = p # as'" by (cases as) auto
    from Cons.prems(1) a as have "ancestor_chain p \<sigma> = Some as"
      using chain_tail [of n \<sigma> p as'] by simp
    from Cons.IH [OF this m] obtain cs bs where "as = cs @ bs" "ancestor_chain m \<sigma> = Some bs"
      by blast
    then show ?thesis by (intro exI [of _ "a # cs"] exI [of _ bs]) simp
  qed
qed

lemma chain_distinct: "ancestor_chain n \<sigma> = Some as \<Longrightarrow> distinct as"
proof (induction as arbitrary: n)
  case Nil
  then show ?case by simp
next
  case (Cons a as)
  from Cons.prems have a: "a = n" by (auto dest: chain_head)
  show ?case
  proof (cases as)
    case Nil
    then show ?thesis by simp
  next
    case (Cons p as')
    with Cons.prems a have c: "ancestor_chain p \<sigma> = Some as"
      using chain_tail [of n \<sigma> p as'] by simp
    have "n \<notin> set as"
    proof
      assume "n \<in> set as"
      from chain_suffix [OF c this] obtain cs bs where "as = cs @ bs" "ancestor_chain n \<sigma> = Some bs"
        by blast
      with Cons.prems a show False by simp
    qed
    with Cons.IH [OF c] a show ?thesis by simp
  qed
qed

lemma chain_transfer:
  "ancestor_chain n \<sigma> = Some as \<Longrightarrow> (\<And>m. m \<in> set as \<Longrightarrow> parent m \<sigma>' = parent m \<sigma>) \<Longrightarrow>
   ancestor_chain n \<sigma>' = Some as"
proof (induction as arbitrary: n)
  case Nil
  then show ?case by (simp add: ancestor_chain_not_Nil)
next
  case (Cons a as)
  from Cons.prems(1) have a: "a = n" by (auto dest: chain_head)
  show ?case
  proof (cases as)
    case Nil
    with Cons.prems a chain_single [of n \<sigma> n] show ?thesis
      by (subst ancestor_chain.simps) simp
  next
    case (Cons p as')
    with Cons.prems(1) a have c: "ancestor_chain p \<sigma> = Some as" and p: "parent n \<sigma> = Some p"
      using chain_tail [of n \<sigma> p as'] by simp_all
    have "ancestor_chain p \<sigma>' = Some as"
      by (rule Cons.IH [OF c]) (simp add: Cons.prems(2))
    with p a Cons.prems(2) [of n] show ?thesis
      by (subst ancestor_chain.simps) simp
  qed
qed

section \<open>Detaching\<close>

lemma root_transfer:
  "ancestor_chain n \<sigma> = Some as \<Longrightarrow> (\<And>m. parent m \<sigma>' = parent m \<sigma>) \<Longrightarrow>
   root n \<sigma>' = Some (last as)"
  by (rule chain_root) (rule chain_transfer, simp_all)

lemma parent_fireHook [simp]: "parent m (fireHook n name \<sigma>) = parent m \<sigma>"
  by (simp add: fireHook_def)

lemma heap_fireHook [simp]: "heap (fireHook n name \<sigma>) = heap \<sigma>"
  by (simp add: fireHook_def)

lemma heap_update_node: "heap (update_node n f \<sigma>) m = (if m = n then f (heap \<sigma> n) else heap \<sigma> m)"
  by (simp add: update_node_def)

lemma trace_update_node [simp]: "trace (update_node n f \<sigma>) = trace \<sigma>"
  by (simp add: update_node_def)

lemma parent_update_node:
  "parent m (update_node n f \<sigma>) = (if m = n then priv_parent (f (heap \<sigma> n)) else parent m \<sigma>)"
  by (simp add: parent_def update_node_def)

lemma heap_removeChild:
  "heap (removeChild n sp \<sigma>) m =
     (if m = n then (heap \<sigma> n)\<lparr>children := filter (\<lambda>kc. fst kc \<noteq> sp) (children (heap \<sigma> n))\<rparr>
      else heap \<sigma> m)"
  by (simp add: removeChild_def update_node_def)

lemma trace_removeChild [simp]: "trace (removeChild n sp \<sigma>) = trace \<sigma>"
  by (simp add: removeChild_def)

lemma parent_removeChild [simp]: "parent m (removeChild n sp \<sigma>) = parent m \<sigma>"
  by (simp add: parent_def heap_removeChild)

lemma detach_result:
  assumes alive: "isAlive n \<sigma>" and par: "parent n \<sigma> = Some p"
    and chain: "ancestor_chain n \<sigma> = Some as"
    and cache: "identifierCache (heap \<sigma> (last as)) = Some c"
  shows "detach n \<sigma> =
    ok (update_node n (\<lambda>nd. nd\<lparr>priv_isDetaching := False\<rparr>)
       (update_node n (\<lambda>nd. nd\<lparr>subpath := []\<rparr>)
       (update_node n (\<lambda>nd. nd\<lparr>priv_parent := None\<rparr>)
       (removeChild p (subpath (heap \<sigma> n))
       (update_node n (\<lambda>nd. nd\<lparr>identifierCache := Some (SplitOff c n)\<rparr>)
       (update_node (last as) (\<lambda>nd. nd\<lparr>identifierCache := Some (SplitRest c n)\<rparr>)
       (update_node n (\<lambda>nd. nd\<lparr>priv_isDetaching := True\<rparr>)
       (update_node n (\<lambda>nd. nd\<lparr>priv_environment := priv_environment (heap \<sigma> (last as))\<rparr>)
       (fireHook n ''beforeDetach'' \<sigma>)))))))))"
    and "n \<noteq> p" and "n \<noteq> last as"
proof -
  from chain par obtain as' where as: "as = n # as'" and cp: "ancestor_chain p \<sigma> = Some as'"
    by (subst (asm) ancestor_chain.simps) (auto simp: bind_eq_Some_conv)
  from cp have ne: "as' \<noteq> []" by (auto simp: ancestor_chain_not_Nil)
  from chain_head [OF cp] obtain bs where as': "as' = p # bs" by blast
  from chain_distinct [OF chain] as have nn: "n \<notin> set as'" by simp
  with as' show np: "n \<noteq> p" by auto
  from nn ne as show nr: "n \<noteq> last as" by (metis last_ConsR last_in_set)
  let ?\<sigma>1 = "fireHook n ''beforeDetach'' \<sigma>"
  have r1: "root n ?\<sigma>1 = Some (last as)"
    by (rule root_transfer [OF chain]) simp
  let ?\<sigma>3 = "update_node n (\<lambda>nd. nd\<lparr>priv_isDetaching := True\<rparr>)
       (update_node n (\<lambda>nd. nd\<lparr>priv_environment := priv_environment (heap \<sigma> (last as))\<rparr>) ?\<sigma>1)"
  have r3: "root n ?\<sigma>3 = Some (last as)"
    by (rule root_transfer [OF chain]) (simp add: parent_def heap_update_node)
  have c3: "identifierCache (heap ?\<sigma>3 (last as)) = Some c"
    using nr cache by (simp add: heap_update_node)
  let ?\<sigma>5 = "update_node n (\<lambda>nd. nd\<lparr>identifierCache := Some (SplitOff c n)\<rparr>)
       (update_node (last as) (\<lambda>nd. nd\<lparr>identifierCache := Some (SplitRest c n)\<rparr>) ?\<sigma>3)"
  have p5: "parent n ?\<sigma>5 = Some p"
    using par nr by (simp add: parent_def heap_update_node)
  have s5: "subpath (heap ?\<sigma>5 n) = subpath (heap \<sigma> n)"
    using nr by (simp add: heap_update_node)
  show "detach n \<sigma> = ok (update_node n (\<lambda>nd. nd\<lparr>priv_isDetaching := False\<rparr>)
       (update_node n (\<lambda>nd. nd\<lparr>subpath := []\<rparr>)
       (update_node n (\<lambda>nd. nd\<lparr>priv_parent := None\<rparr>)
       (removeChild p (subpath (heap \<sigma> n)) ?\<sigma>5))))"
    using alive par
    unfolding detach_def Let_def
    by (simp add: r1 r3 c3 p5 s5 isAlive_def isRoot_def thenR_def lift_def ok_def)
qed

lemma root_of_root: "parent n \<sigma> = None \<Longrightarrow> root n \<sigma> = Some n"
  by (subst root.simps) simp

lemma path_of_root: "parent n \<sigma> = None \<Longrightarrow> path n \<sigma> = Some []"
  by (subst path.simps) simp

text \<open>
  C6: \<^verbatim>\<open>detach()\<close> raises on a dead node and returns the state unchanged on a root. On any
  other alive node (its parent chain ends at a root that holds an identifier cache, and
  its parent lists it under its subpath only) it returns; it has fired \<^verbatim>\<open>beforeDetach\<close> and
  nothing else, the node holds the root's environment and the cache split off for it, the
  root's cache holds the rest, the former parent's children are those it had without the
  node's subpath, and parent and subpath are cleared: the node is alive, is its own root,
  has path \<^verbatim>\<open>""\<close> and is no child of its former parent.
\<close>

theorem detach_makes_root:
  "(\<not> isAlive n \<sigma> \<longrightarrow> detach n \<sigma> = fail DetachNotAlive)
   \<and> (isAlive n \<sigma> \<and> isRoot n \<sigma> \<longrightarrow> detach n \<sigma> = ok \<sigma>)
   \<and> (isAlive n \<sigma> \<and> parent n \<sigma> = Some p \<and> ancestor_chain n \<sigma> = Some as
        \<and> identifierCache (heap \<sigma> (last as)) = Some c
        \<and> (\<forall>kc \<in> set (children (heap \<sigma> p)). snd kc = n \<longrightarrow> fst kc = subpath (heap \<sigma> n)) \<longrightarrow>
      (\<exists>\<sigma>'. detach n \<sigma> = ok \<sigma>'
         \<and> trace \<sigma>' = trace \<sigma> @ (if ''beforeDetach'' \<in> set (hooks (heap \<sigma> n))
                                  then [HookFired n ''beforeDetach''] else [])
         \<and> priv_environment (heap \<sigma>' n) = priv_environment (heap \<sigma> (last as))
         \<and> identifierCache (heap \<sigma>' n) = Some (SplitOff c n)
         \<and> identifierCache (heap \<sigma>' (last as)) = Some (SplitRest c n)
         \<and> children (heap \<sigma>' p)
             = filter (\<lambda>kc. fst kc \<noteq> subpath (heap \<sigma> n)) (children (heap \<sigma> p))
         \<and> parent n \<sigma>' = None \<and> subpath (heap \<sigma>' n) = []
         \<and> isAlive n \<sigma>' \<and> isRoot n \<sigma>' \<and> root n \<sigma>' = Some n \<and> path n \<sigma>' = Some []
         \<and> n \<notin> snd ` set (children (heap \<sigma>' p))))"
proof (intro conjI impI)
  show "detach n \<sigma> = fail DetachNotAlive" if "\<not> isAlive n \<sigma>"
    using that by (simp add: detach_def isAlive_def)
  show "detach n \<sigma> = ok \<sigma>" if "isAlive n \<sigma> \<and> isRoot n \<sigma>"
    using that by (simp add: detach_def isAlive_def)
next
  assume a: "isAlive n \<sigma> \<and> parent n \<sigma> = Some p \<and> ancestor_chain n \<sigma> = Some as
        \<and> identifierCache (heap \<sigma> (last as)) = Some c
        \<and> (\<forall>kc \<in> set (children (heap \<sigma> p)). snd kc = n \<longrightarrow> fst kc = subpath (heap \<sigma> n))"
  then have alive: "isAlive n \<sigma>" and par: "parent n \<sigma> = Some p"
    and chain: "ancestor_chain n \<sigma> = Some as"
    and cache: "identifierCache (heap \<sigma> (last as)) = Some c"
    and link: "\<forall>kc \<in> set (children (heap \<sigma> p)). snd kc = n \<longrightarrow> fst kc = subpath (heap \<sigma> n)"
    by simp_all
  note r = detach_result [OF alive par chain cache]
  let ?\<sigma>' = "update_node n (\<lambda>nd. nd\<lparr>priv_isDetaching := False\<rparr>)
       (update_node n (\<lambda>nd. nd\<lparr>subpath := []\<rparr>)
       (update_node n (\<lambda>nd. nd\<lparr>priv_parent := None\<rparr>)
       (removeChild p (subpath (heap \<sigma> n))
       (update_node n (\<lambda>nd. nd\<lparr>identifierCache := Some (SplitOff c n)\<rparr>)
       (update_node (last as) (\<lambda>nd. nd\<lparr>identifierCache := Some (SplitRest c n)\<rparr>)
       (update_node n (\<lambda>nd. nd\<lparr>priv_isDetaching := True\<rparr>)
       (update_node n (\<lambda>nd. nd\<lparr>priv_environment := priv_environment (heap \<sigma> (last as))\<rparr>)
       (fireHook n ''beforeDetach'' \<sigma>))))))))"
  have np: "n \<noteq> p" "p \<noteq> n" and nr: "n \<noteq> last as" "last as \<noteq> n" using r(2,3) by auto
  have hn: "heap ?\<sigma>' n = (heap \<sigma> n)\<lparr>priv_environment := priv_environment (heap \<sigma> (last as)),
      identifierCache := Some (SplitOff c n), priv_parent := None, subpath := [],
      priv_isDetaching := False\<rparr>"
    using np nr by (simp add: heap_update_node heap_removeChild)
  have hp: "children (heap ?\<sigma>' p)
      = filter (\<lambda>kc. fst kc \<noteq> subpath (heap \<sigma> n)) (children (heap \<sigma> p))"
    using np nr by (simp add: heap_update_node heap_removeChild)
  have hr: "identifierCache (heap ?\<sigma>' (last as)) = Some (SplitRest c n)"
    using np nr by (simp add: heap_update_node heap_removeChild)
  have tr: "trace ?\<sigma>' = trace \<sigma> @ (if ''beforeDetach'' \<in> set (hooks (heap \<sigma> n))
                                  then [HookFired n ''beforeDetach''] else [])"
    by (simp add: fireHook_def)
  have pn: "parent n ?\<sigma>' = None" using hn by (simp add: parent_def)
  have gone: "n \<notin> snd ` set (children (heap ?\<sigma>' p))"
    using link by (auto simp: hp)
  show "\<exists>\<sigma>'. detach n \<sigma> = ok \<sigma>'
         \<and> trace \<sigma>' = trace \<sigma> @ (if ''beforeDetach'' \<in> set (hooks (heap \<sigma> n))
                                  then [HookFired n ''beforeDetach''] else [])
         \<and> priv_environment (heap \<sigma>' n) = priv_environment (heap \<sigma> (last as))
         \<and> identifierCache (heap \<sigma>' n) = Some (SplitOff c n)
         \<and> identifierCache (heap \<sigma>' (last as)) = Some (SplitRest c n)
         \<and> children (heap \<sigma>' p)
             = filter (\<lambda>kc. fst kc \<noteq> subpath (heap \<sigma> n)) (children (heap \<sigma> p))
         \<and> parent n \<sigma>' = None \<and> subpath (heap \<sigma>' n) = []
         \<and> isAlive n \<sigma>' \<and> isRoot n \<sigma>' \<and> root n \<sigma>' = Some n \<and> path n \<sigma>' = Some []
         \<and> n \<notin> snd ` set (children (heap \<sigma>' p))"
    using r(1) tr hp hr pn gone alive root_of_root [OF pn] path_of_root [OF pn]
    by (intro exI [of _ ?\<sigma>']) (simp add: hn isAlive_def isRoot_def)
qed

theorem detach_makes_root_witness:
  "isAlive 2 tree_state \<and> parent 2 tree_state = Some 1
   \<and> ancestor_chain 2 tree_state = Some [2, 1]
   \<and> identifierCache (heap tree_state (last [2, 1])) = Some NewCache
   \<and> children (heap tree_state 1) = [(''a'', 2), (''n'', 4)]
   \<and> subpath (heap tree_state 2) = ''a''
   \<and> (\<exists>\<sigma>'. detach 2 tree_state = ok \<sigma>'
         \<and> trace \<sigma>' = [HookFired 2 ''beforeDetach'']
         \<and> identifierCache (heap \<sigma>' 2) = Some (SplitOff NewCache 2)
         \<and> identifierCache (heap \<sigma>' 1) = Some (SplitRest NewCache 2)
         \<and> children (heap \<sigma>' 1) = [(''n'', 4)]
         \<and> parent 2 \<sigma>' = None \<and> subpath (heap \<sigma>' 2) = []
         \<and> isAlive 2 \<sigma>' \<and> isRoot 2 \<sigma>' \<and> root 2 \<sigma>' = Some 2 \<and> path 2 \<sigma>' = Some [])"
proof -
  have h: "isAlive 2 tree_state \<and> parent 2 tree_state = Some 1
        \<and> ancestor_chain 2 tree_state = Some [2, 1]
        \<and> identifierCache (heap tree_state (last [2, 1])) = Some NewCache
        \<and> (\<forall>kc \<in> set (children (heap tree_state 1)). snd kc = 2 \<longrightarrow> fst kc = subpath (heap tree_state 2))"
    by (simp add: ancestor_chain.simps isAlive_def parent_def tree_state_def tree_heap_def blank_def)
  have c: "children (heap tree_state 1) = [(''a'', 2), (''n'', 4)]"
    and s: "subpath (heap tree_state 2) = ''a''"
    and k: "hooks (heap tree_state 2) = [''beforeDetach'']"
    and t: "trace tree_state = []"
    by (simp_all add: tree_state_def tree_heap_def blank_def)
  from detach_makes_root [of 2 tree_state 1 "[2, 1]" NewCache] h
  show ?thesis
    by (simp add: c [simplified] s k t) blast
qed

section \<open>The path codec\<close>

lemma escape_Nil [simp]: "escapeJsonPath [] = []"
  by (simp add: escapeJsonPath_def)

lemma escape_Cons:
  "escapeJsonPath (c # s) =
     (if c = CHR ''~'' then ''~0'' else if c = CHR ''/'' then ''~1'' else [c]) @ escapeJsonPath s"
  by (simp add: escapeJsonPath_def)

lemma no_slash_escape: "CHR ''/'' \<notin> set (escapeJsonPath s)"
  by (induction s) (simp_all add: escape_Cons)

lemma unescape_escape: "unescapeJsonPath (escapeJsonPath s) = s"
proof (induction s)
  case Nil
  show ?case by simp
next
  case (Cons c s)
  show ?case
  proof (cases "c = CHR ''~'' \<or> c = CHR ''/''")
    case True
    with Cons show ?thesis by (auto simp: escape_Cons)
  next
    case False
    with Cons show ?thesis
      by (cases "escapeJsonPath s") (auto simp: escape_Cons)
  qed
qed

lemma split_slash_not_Nil [simp]: "split_slash s \<noteq> []"
  by (cases s) simp_all

lemma split_slash_no_slash:
  "CHR ''/'' \<notin> set e \<Longrightarrow> split_slash (e @ r) = (e @ hd (split_slash r)) # tl (split_slash r)"
  by (induction e) auto

lemma split_slash_slashed:
  "CHR ''/'' \<notin> set e \<Longrightarrow> split_slash (e @ slashed ss) = e # map escapeJsonPath ss"
proof (induction ss arbitrary: e)
  case Nil
  then show ?case by (simp add: slashed_def split_slash_no_slash [of e "[]", simplified])
next
  case (Cons s ss)
  have "split_slash (e @ slashed (s # ss))
        = (e @ hd (split_slash (slashed (s # ss)))) # tl (split_slash (slashed (s # ss)))"
    by (rule split_slash_no_slash [OF Cons.prems])
  also have "split_slash (slashed (s # ss)) = [] # split_slash (escapeJsonPath s @ slashed ss)"
    by (simp add: slashed_def)
  also have "split_slash (escapeJsonPath s @ slashed ss) = escapeJsonPath s # map escapeJsonPath ss"
    by (rule Cons.IH) (rule no_slash_escape)
  finally show ?case by simp
qed

lemma splitJsonPath_slashed: "splitJsonPath (slashed ss) = ss"
  using split_slash_slashed [of "[]" ss]
  by (simp add: splitJsonPath_def unescape_escape map_idI o_def)

lemma join_slash_escaped: "ss \<noteq> [] \<Longrightarrow> CHR ''/'' # join_slash (map escapeJsonPath ss) = slashed ss"
  by (induction ss rule: induct_list012) (simp_all add: slashed_def)

lemma joinJsonPath_slashed: "joinJsonPath ss = slashed ss"
  by (cases "ss = []") (simp_all add: joinJsonPath_def join_slash_escaped, simp add: slashed_def)

lemma escape_dotdot: "escapeJsonPath ''..'' = ''..''"
  by (simp add: escapeJsonPath_def)

lemma join_slash_ups:
  "join_slash (replicate (Suc k) ''..'') = ''..'' @ slashed (replicate k ''..'')"
  by (induction k) (simp_all add: slashed_def escape_dotdot)

lemma slashed_append: "slashed (xs @ ys) = slashed xs @ slashed ys"
  by (simp add: slashed_def)

lemma splitJsonPath_relative:
  "splitJsonPath (join_slash (replicate k ''..'') @ joinJsonPath rest) = replicate k ''..'' @ rest"
proof (cases k)
  case 0
  then show ?thesis by (simp add: joinJsonPath_slashed splitJsonPath_slashed)
next
  case (Suc j)
  have "split_slash (join_slash (replicate k ''..'') @ joinJsonPath rest)
        = split_slash (''..'' @ slashed (replicate j ''..'' @ rest))"
    by (simp add: Suc join_slash_ups joinJsonPath_slashed slashed_append del: replicate.simps)
  also have "\<dots> = ''..'' # map escapeJsonPath (replicate j ''..'' @ rest)"
    by (rule split_slash_slashed) simp
  finally show ?thesis
    by (simp add: splitJsonPath_def Suc unescape_escape o_def escape_dotdot map_idI
        unescape_escape [of "''..''", unfolded escape_dotdot])
qed

section \<open>Relative paths lead back\<close>

lemma slashed_snoc: "slashed (ss @ [s]) = slashed ss @ ''/'' @ escapeJsonPath s"
  by (simp add: slashed_def)

lemma segments_Cons2: "segments \<sigma> (n # p # as) = segments \<sigma> (p # as) @ [subpath (heap \<sigma> n)]"
  by (simp add: segments_def)

lemma chain_path_slashed: "chain_path \<sigma> as = slashed (segments \<sigma> as)"
  by (induction as rule: induct_list012)
    (simp_all add: segments_Cons2 slashed_snoc, simp_all add: segments_def slashed_def)

lemma common_loop_lcp:
  "i \<le> length xs \<Longrightarrow>
   common_loop xs ys i = i + length (longest_common_prefix (drop i xs) (drop i ys))"
proof (induction xs ys i rule: common_loop.induct)
  case (1 xs ys i)
  show ?case
  proof (cases "i < length xs")
    case False
    with 1(2) show ?thesis by (subst common_loop.simps) simp
  next
    case inx: True
    show ?thesis
    proof (cases "i < length ys \<and> xs ! i = ys ! i")
      case True
      from inx have dx: "drop i xs = xs ! i # drop (Suc i) xs"
        by (simp add: Cons_nth_drop_Suc)
      from True have iny: "i < length ys" by simp
      then have dy: "drop i ys = ys ! i # drop (Suc i) ys"
        by (simp add: Cons_nth_drop_Suc)
      from True have "longest_common_prefix (drop i xs) (drop i ys)
            = xs ! i # longest_common_prefix (drop (Suc i) xs) (drop (Suc i) ys)"
        by (simp only: dx dy) simp
      with 1(1) inx True show ?thesis
        by (subst common_loop.simps) simp
    next
      case False
      have "longest_common_prefix (drop i xs) (drop i ys) = []"
      proof (cases "i < length ys")
        case True
        from inx have dx: "drop i xs = xs ! i # drop (Suc i) xs"
          by (simp add: Cons_nth_drop_Suc)
        from True have dy: "drop i ys = ys ! i # drop (Suc i) ys"
          by (simp add: Cons_nth_drop_Suc)
        from False True have "xs ! i \<noteq> ys ! i" by simp
        then show ?thesis by (simp only: dx dy) simp
      next
        case False
        then show ?thesis by simp
      qed
      with False inx show ?thesis
        by (subst common_loop.simps) auto
    qed
  qed
qed

lemma chain_nth_0: "ancestor_chain n \<sigma> = Some as \<Longrightarrow> as ! 0 = n"
  by (auto dest: chain_head)

lemma chain_nth_parent:
  "ancestor_chain n \<sigma> = Some as \<Longrightarrow> Suc j < length as \<Longrightarrow> parent (as ! j) \<sigma> = Some (as ! Suc j)"
proof (induction as arbitrary: n j)
  case Nil
  then show ?case by simp
next
  case (Cons a as)
  from Cons.prems(1) have a: "a = n" by (auto dest: chain_head)
  from Cons.prems(2) obtain p as' where as: "as = p # as'" by (cases as) auto
  from Cons.prems(1) a as have p: "parent n \<sigma> = Some p" and c: "ancestor_chain p \<sigma> = Some as"
    using chain_tail [of n \<sigma> p as'] by simp_all
  show ?case
  proof (cases j)
    case 0
    with a as p show ?thesis by simp
  next
    case (Suc j')
    with Cons.prems(2) have "Suc j' < length as" by simp
    from Cons.IH [OF c this] Suc show ?thesis by simp
  qed
qed

lemma go_up:
  assumes "ancestor_chain a \<sigma> = Some as"
  shows "j + k < length as \<Longrightarrow>
     resolvePath_loop parts flag i (replicate k ''..'' @ rest) (Some (as ! j)) \<sigma>
       = resolvePath_loop parts flag (i + k) rest (Some (as ! (j + k))) \<sigma>"
proof (induction k arbitrary: i j)
  case 0
  show ?case by simp
next
  case (Suc k)
  from Suc.prems have "Suc j < length as" and "Suc j + k < length as" by simp_all
  with Suc.IH [of "Suc j" "Suc i"] chain_nth_parent [OF assms, of j]
  show ?case by simp
qed

lemma go_down:
  assumes "ancestor_chain b \<sigma> = Some bs"
  shows "j < length bs \<Longrightarrow> \<forall>m \<in> set (take j bs). linked m \<sigma> \<and> \<not> special (subpath (heap \<sigma> m)) \<Longrightarrow>
     \<forall>m \<in> set (take j (tl bs)). isAlive m \<sigma> \<Longrightarrow>
     resolvePath_loop parts flag i (rev (map (\<lambda>m. subpath (heap \<sigma> m)) (take j bs))) (Some (bs ! j)) \<sigma>
       = ok (Some b)"
proof (induction j arbitrary: i)
  case 0
  show ?case using chain_nth_0 [OF assms] by simp
next
  case (Suc j)
  from Suc.prems(1) have j: "j < length bs" by simp
  then have t: "take (Suc j) bs = take j bs @ [bs ! j]"
    by (simp add: take_Suc_conv_app_nth)
  from Suc.prems(1) have tt: "take (Suc j) (tl bs) = take j (tl bs) @ [bs ! Suc j]"
    by (simp add: take_Suc_conv_app_nth nth_tl)
  from Suc.prems(2) t have l: "linked (bs ! j) \<sigma>" and s: "\<not> special (subpath (heap \<sigma> (bs ! j)))"
    by simp_all
  from Suc.prems(3) tt have al: "isAlive (bs ! Suc j) \<sigma>" by simp
  from chain_nth_parent [OF assms Suc.prems(1)] l
  have g: "map_of (children (heap \<sigma> (bs ! Suc j))) (subpath (heap \<sigma> (bs ! j))) = Some (bs ! j)"
    by (simp add: linked_def)
  have IH: "resolvePath_loop parts flag (Suc i)
      (rev (map (\<lambda>m. subpath (heap \<sigma> m)) (take j bs))) (Some (bs ! j)) \<sigma> = ok (Some b)"
    using Suc.prems(2,3) t tt by (intro Suc.IH [OF j]) simp_all
  have step: "resolvePath_loop parts flag i
      (subpath (heap \<sigma> (bs ! j)) # rev (map (\<lambda>m. subpath (heap \<sigma> m)) (take j bs)))
      (Some (bs ! Suc j)) \<sigma>
    = resolvePath_loop parts flag (Suc i)
      (rev (map (\<lambda>m. subpath (heap \<sigma> m)) (take j bs))) (Some (bs ! j)) \<sigma>"
    using s al g
    by (simp add: special_def getChildNode_def assertAlive_def isAlive_def thenR_def ok_def)
  show ?case
    unfolding t using step IH by simp
qed

lemma segments_length [simp]: "length (segments \<sigma> as) = length as - 1"
  by (simp add: segments_def)

lemma segments_rev: "segments \<sigma> as = map (\<lambda>m. subpath (heap \<sigma> m)) (tl (rev as))"
  by (cases as rule: rev_cases) (simp_all add: segments_def rev_map)

lemma segments_nth:
  "Suc d < length as \<Longrightarrow> segments \<sigma> as ! d = subpath (heap \<sigma> (rev as ! Suc d))"
proof -
  assume d: "Suc d < length as"
  then have l: "d < length (tl (rev as))" by simp
  then have e: "tl (rev as) ! d = rev as ! Suc d" by (rule nth_tl)
  from l have "segments \<sigma> as ! d = subpath (heap \<sigma> (tl (rev as) ! d))"
    unfolding segments_rev by (rule nth_map)
  then show ?thesis by (simp only: e)
qed

lemma chain_rev_parent:
  assumes "ancestor_chain n \<sigma> = Some as" and d: "Suc d < length as"
  shows "parent (rev as ! Suc d) \<sigma> = Some (rev as ! d)"
proof -
  from d have 1: "rev as ! Suc d = as ! (length as - Suc (Suc d))"
    and 2: "rev as ! d = as ! Suc (length as - Suc (Suc d))"
    by (simp_all add: rev_nth Suc_diff_Suc)
  from d have "Suc (length as - Suc (Suc d)) < length as" by simp
  from chain_nth_parent [OF assms(1) this] 1 2 show ?thesis by simp
qed

lemma meet:
  assumes ca: "ancestor_chain a \<sigma> = Some as" and cb: "ancestor_chain b \<sigma> = Some bs"
    and root: "last as = last bs"
    and la: "\<forall>m \<in> set as. linked m \<sigma>" and lb: "\<forall>m \<in> set bs. linked m \<sigma>"
  shows "c < length as \<Longrightarrow> c < length bs \<Longrightarrow>
     take c (segments \<sigma> as) = take c (segments \<sigma> bs) \<Longrightarrow>
     rev as ! c = rev bs ! c"
proof (induction c)
  case 0
  from ca cb have "as \<noteq> []" "bs \<noteq> []" by (auto simp: ancestor_chain_not_Nil)
  with root show ?case by (simp add: hd_rev [symmetric] hd_conv_nth)
next
  case (Suc c)
  from Suc.prems have c: "c < length as" "c < length bs" by simp_all
  from Suc.prems have tk: "take c (segments \<sigma> as) = take c (segments \<sigma> bs)"
    and nth: "segments \<sigma> as ! c = segments \<sigma> bs ! c"
    by (simp_all add: take_Suc_conv_app_nth)
  note P = Suc.IH [OF c tk]
  note pa = chain_rev_parent [OF ca Suc.prems(1)]
  note pb = chain_rev_parent [OF cb Suc.prems(2)]
  from Suc.prems have sa: "segments \<sigma> as ! c = subpath (heap \<sigma> (rev as ! Suc c))"
    and sb: "segments \<sigma> bs ! c = subpath (heap \<sigma> (rev bs ! Suc c))"
    by (simp_all add: segments_nth)
  from Suc.prems(1) have "rev as ! Suc c \<in> set (rev as)" by (intro nth_mem) simp
  with la have "linked (rev as ! Suc c) \<sigma>" by simp
  with pa have 1: "map_of (children (heap \<sigma> (rev as ! c))) (subpath (heap \<sigma> (rev as ! Suc c)))
      = Some (rev as ! Suc c)"
    by (simp add: linked_def)
  from Suc.prems(2) have "rev bs ! Suc c \<in> set (rev bs)" by (intro nth_mem) simp
  with lb have "linked (rev bs ! Suc c) \<sigma>" by simp
  with pb have 2: "map_of (children (heap \<sigma> (rev bs ! c))) (subpath (heap \<sigma> (rev bs ! Suc c)))
      = Some (rev bs ! Suc c)"
    by (simp add: linked_def)
  from nth have sub: "subpath (heap \<sigma> (rev as ! Suc c)) = subpath (heap \<sigma> (rev bs ! Suc c))"
    unfolding sa sb .
  from 1 have "map_of (children (heap \<sigma> (rev bs ! c))) (subpath (heap \<sigma> (rev bs ! Suc c)))
      = Some (rev as ! Suc c)"
    unfolding P sub .
  with 2 show ?case by simp
qed

lemma prefix_take: "prefix p xs \<Longrightarrow> take (length p) xs = p"
  by (auto simp: prefix_def)

lemma rest_segments:
  assumes "c \<le> length bs - 1"
  shows "drop c (segments \<sigma> bs)
     = rev (map (\<lambda>m. subpath (heap \<sigma> m)) (take (length bs - 1 - c) bs))"
proof -
  have 1: "drop c (segments \<sigma> bs)
        = rev (map (\<lambda>m. subpath (heap \<sigma> m)) (take (length bs - 1 - c) (butlast bs)))"
    by (simp add: segments_def drop_rev take_map)
  have 2: "take (length bs - 1 - c) (butlast bs) = take (length bs - 1 - c) bs"
    by (cases bs rule: rev_cases) simp_all
  show ?thesis by (simp only: 1 2)
qed

text \<open>
  C4, as the code has it: for nodes \<open>a\<close> and \<open>b\<close> whose parent chains end. When they have the
  same root, \<^verbatim>\<open>a.getRelativePathTo(b)\<close> is one \<^verbatim>\<open>..\<close> per segment of \<open>a\<close> behind the longest
  common prefix of the two paths, joined by \<^verbatim>\<open>/\<close>, followed by the remaining segments of
  \<open>b\<close>, each escaped and behind a \<^verbatim>\<open>/\<close>; and resolving that path from \<open>a\<close> yields \<open>b\<close> when,
  in addition, every node on the two chains is the child of its parent at its subpath,
  none of the remaining segments is \<^verbatim>\<open>""\<close>, \<^verbatim>\<open>.\<close> or \<^verbatim>\<open>..\<close>, and every node from the common
  ancestor down to the parent of \<open>b\<close> is alive. When the roots differ, \<^verbatim>\<open>getRelativePathTo\<close>
  raises the cross-tree error.
\<close>

theorem relative_path_round_trip:
  assumes ca: "ancestor_chain a \<sigma> = Some as" and cb: "ancestor_chain b \<sigma> = Some bs"
    and c: "c = length (longest_common_prefix (segments \<sigma> as) (segments \<sigma> bs))"
  shows "(last as = last bs \<longrightarrow>
            getRelativePathTo a b \<sigma>
              = ok (join_slash (replicate (length (segments \<sigma> as) - c) ''..'')
                    @ joinJsonPath (drop c (segments \<sigma> bs)))
          \<and> ((\<forall>m \<in> set as \<union> set bs. linked m \<sigma>)
               \<and> (\<forall>s \<in> set (drop c (segments \<sigma> bs)). \<not> special s)
               \<and> (\<forall>m \<in> set (take (length (segments \<sigma> bs) - c) (tl bs)). isAlive m \<sigma>)
              \<longrightarrow> resolve a (join_slash (replicate (length (segments \<sigma> as) - c) ''..'')
                              @ joinJsonPath (drop c (segments \<sigma> bs))) True \<sigma> = ok (Some b)))
       \<and> (last as \<noteq> last bs \<longrightarrow> getRelativePathTo a b \<sigma> = fail NotSameTree)"
proof -
  note ra = chain_root [OF ca] and rb = chain_root [OF cb]
  have pa: "path a \<sigma> = Some (slashed (segments \<sigma> as))"
    and pb: "path b \<sigma> = Some (slashed (segments \<sigma> bs))"
    using chain_path [OF ca] chain_path [OF cb] by (simp_all add: chain_path_slashed)
  let ?k = "length (segments \<sigma> as) - c" and ?rest = "drop c (segments \<sigma> bs)"
  let ?parts = "replicate ?k ''..'' @ ?rest"
  have cross: "getRelativePathTo a b \<sigma> = fail NotSameTree" if "last as \<noteq> last bs"
    using that by (simp add: getRelativePathTo_def ra rb thenR_def lift_def)
  have cl: "common_loop (segments \<sigma> as) (segments \<sigma> bs) 0 = c"
    using common_loop_lcp [of 0 "segments \<sigma> as" "segments \<sigma> bs"] c by simp
  have rel: "getRelativePathTo a b \<sigma> = ok (join_slash (replicate ?k ''..'') @ joinJsonPath ?rest)"
    if "last as = last bs"
    using that
    by (simp add: getRelativePathTo_def ra rb pa pb thenR_def lift_def splitJsonPath_slashed
        cl Let_def map_replicate_const)
  have res: "resolve a (join_slash (replicate ?k ''..'') @ joinJsonPath ?rest) True \<sigma> = ok (Some b)"
    if root: "last as = last bs"
      and links: "\<forall>m \<in> set as \<union> set bs. linked m \<sigma>"
      and plain: "\<forall>s \<in> set ?rest. \<not> special s"
      and alive: "\<forall>m \<in> set (take (length (segments \<sigma> bs) - c) (tl bs)). isAlive m \<sigma>"
  proof -
    from ca cb have ne: "as \<noteq> []" "bs \<noteq> []" by (auto simp: ancestor_chain_not_Nil)
    have ca_le: "c \<le> length as - 1" and cb_le: "c \<le> length bs - 1"
      using prefix_length_le [OF longest_common_prefix_prefix1 [of "segments \<sigma> as" "segments \<sigma> bs"]]
        prefix_length_le [OF longest_common_prefix_prefix2 [of "segments \<sigma> as" "segments \<sigma> bs"]]
      by (simp_all add: c)
    have tk: "take c (segments \<sigma> as) = take c (segments \<sigma> bs)"
      using prefix_take [OF longest_common_prefix_prefix1 [of "segments \<sigma> as" "segments \<sigma> bs"]]
        prefix_take [OF longest_common_prefix_prefix2 [of "segments \<sigma> as" "segments \<sigma> bs"]]
      by (simp add: c)
    from ne(1) ca_le have lta: "c < length as" by (cases as) simp_all
    from ne(2) cb_le have ltb: "c < length bs" by (cases bs) simp_all
    note lt = lta ltb
    from links have la: "\<forall>m \<in> set as. linked m \<sigma>" and lb: "\<forall>m \<in> set bs. linked m \<sigma>" by simp_all
    from meet [OF ca cb root la lb lt tk] lt
    have m: "as ! (length as - Suc c) = bs ! (length bs - Suc c)"
      by (simp add: rev_nth)
    have k: "?k = length as - Suc c" by simp
    let ?j = "length bs - Suc c"
    have rest: "?rest = rev (map (\<lambda>m. subpath (heap \<sigma> m)) (take ?j bs))"
      using rest_segments [OF cb_le, of \<sigma>] by simp
    have up: "resolvePath_loop ?parts True 0 ?parts (Some a) \<sigma>
              = resolvePath_loop ?parts True ?k ?rest (Some (as ! ?k)) \<sigma>"
      using go_up [OF ca, of 0 ?k ?parts True 0 ?rest] chain_nth_0 [OF ca] ne by simp
    have j: "?j < length bs" using ne by simp
    have pl: "\<forall>m \<in> set (take ?j bs). linked m \<sigma> \<and> \<not> special (subpath (heap \<sigma> m))"
      using lb plain unfolding rest by (auto dest: in_set_takeD)
    have al: "\<forall>m \<in> set (take ?j (tl bs)). isAlive m \<sigma>"
      using alive by simp
    have down: "resolvePath_loop ?parts True ?k ?rest (Some (bs ! ?j)) \<sigma> = ok (Some b)"
      unfolding rest by (rule go_down [OF cb j pl al])
    show ?thesis
      unfolding resolve_def splitJsonPath_relative resolvePath_def up
      using down m k by simp
  qed
  from cross rel res show ?thesis by blast
qed

theorem relative_path_round_trip_witness:
  "ancestor_chain 4 tree_state = Some [4, 1] \<and> ancestor_chain 3 tree_state = Some [3, 2, 1]
   \<and> linked 4 tree_state \<and> linked 1 tree_state \<and> linked 3 tree_state \<and> linked 2 tree_state
   \<and> length (longest_common_prefix (segments tree_state [4, 1]) (segments tree_state [3, 2, 1])) = 0
   \<and> \<not> special ''a'' \<and> \<not> special ''b''
   \<and> isAlive 2 tree_state \<and> isAlive 1 tree_state
   \<and> getRelativePathTo 4 3 tree_state = ok ''../a/b''
   \<and> resolve 4 ''../a/b'' True tree_state = ok (Some 3)"
proof -
  have ca: "ancestor_chain 4 tree_state = Some [4, 1]"
    and cb: "ancestor_chain 3 tree_state = Some [3, 2, 1]"
    by (simp_all add: ancestor_chain.simps parent_def tree_state_def tree_heap_def blank_def)
  have l: "linked 4 tree_state \<and> linked 1 tree_state \<and> linked 3 tree_state \<and> linked 2 tree_state"
    by (simp add: linked_def parent_def tree_state_def tree_heap_def blank_def)
  have sa: "segments tree_state [4, 1] = [''n'']"
    and sb: "segments tree_state [3, 2, 1] = [''a'', ''b'']"
    by (simp_all add: segments_def tree_state_def tree_heap_def blank_def)
  have c: "0 = length (longest_common_prefix (segments tree_state [4, 1])
                (segments tree_state [3, 2, 1]))"
    unfolding sa sb by simp
  have s: "\<not> special ''a'' \<and> \<not> special ''b''"
    by (simp add: special_def)
  have al: "isAlive 2 tree_state \<and> isAlive 1 tree_state"
    by (simp add: isAlive_def tree_state_def tree_heap_def blank_def)
  have links: "\<forall>m \<in> set [4, 1] \<union> set [3, 2, 1]. linked m tree_state"
    using l by simp
  have plain: "\<forall>s \<in> set (drop 0 (segments tree_state [3, 2, 1])). \<not> special s"
    using s unfolding sb by simp
  have alive: "\<forall>m \<in> set (take (length (segments tree_state [3, 2, 1]) - 0) (tl [3, 2, 1])).
                 isAlive m tree_state"
    using al unfolding sb by simp
  have p: "join_slash (replicate (length (segments tree_state [4, 1]) - 0) ''..'')
             @ joinJsonPath (drop 0 (segments tree_state [3, 2, 1])) = ''../a/b''"
    unfolding sa sb by (simp add: joinJsonPath_def escapeJsonPath_def)
  have r: "last [4, 1] = last [3, 2, 1::nat]"
    by simp
  let ?p = "join_slash (replicate (length (segments tree_state [4, 1]) - 0) ''..'')
              @ joinJsonPath (drop 0 (segments tree_state [3, 2, 1]))"
  from relative_path_round_trip [OF ca cb c] r links plain alive
  have "getRelativePathTo 4 3 tree_state = ok ?p \<and> resolve 4 ?p True tree_state = ok (Some 3)"
    by blast
  then have "getRelativePathTo 4 3 tree_state = ok ''../a/b''
        \<and> resolve 4 ''../a/b'' True tree_state = ok (Some 3)"
    unfolding p .
  with ca cb l c s al show ?thesis by simp
qed

text \<open>
  C4 as stated fails where a remaining segment of the target is a direction: in a map
  with the key \<^verbatim>\<open>.\<close>, root and child are alive and share the root, the relative path from
  the root to the child is \<^verbatim>\<open>/.\<close>, and resolving it from the root stays at the root.
\<close>

theorem relative_path_dot_counterexample:
  "isAlive 1 dot_state \<and> isAlive 2 dot_state
   \<and> root 1 dot_state = Some 1 \<and> root 2 dot_state = Some 1
   \<and> getRelativePathTo 1 2 dot_state = ok ''/.''
   \<and> resolve 1 ''/.'' True dot_state = ok (Some 1)"
  by code_simp

section \<open>The cascade of die\<close>

lemma forEach_append: "forEach f (xs @ ys) \<sigma> = thenR (forEach f xs \<sigma>) (forEach f ys)"
proof (induction xs arbitrary: \<sigma>)
  case Nil
  show ?case by (simp add: thenR_def ok_def)
next
  case (Cons x xs)
  show ?case
    by (cases "f x \<sigma>") (auto simp: thenR_def Cons split: sum.splits)
qed

lemma thenR_cong_ok:
  "(\<And>x. m = Some (Inr x) \<Longrightarrow> f x = g x) \<Longrightarrow> thenR m f = thenR m g"
  by (cases m) (auto simp: thenR_def split: sum.splits)

lemma forEach_single [simp]: "forEach f [x] = f x"
proof
  fix \<sigma>
  show "forEach f [x] \<sigma> = f x \<sigma>"
    by (cases "f x \<sigma>") (auto simp: thenR_def ok_def split: sum.splits)
qed

lemma thenR_ok_left [simp]: "thenR (ok x) f = f x"
  by (simp add: thenR_def ok_def)

lemma same_outside_refl [simp]: "same_outside D s s"
  by (simp add: same_outside_def)

lemma same_outside_trans:
  "same_outside D s s' \<Longrightarrow> same_outside E s' s'' \<Longrightarrow> same_outside (D \<union> E) s s''"
  by (simp add: same_outside_def)

lemma forEach_stable:
  assumes "stable P"
  shows "forEach P xs s = Some (Inr s') \<Longrightarrow> same_outside (set xs) s s'"
proof (induction xs arbitrary: s)
  case Nil
  then show ?case by simp
next
  case (Cons x xs)
  from Cons.prems obtain s1 where 1: "P x s = Some (Inr s1)" and 2: "forEach P xs s1 = Some (Inr s')"
    by (auto simp: thenR_ok)
  from assms 1 have "same_outside {x} s s1" by (simp add: stable_def same_outside_def)
  from same_outside_trans [OF this Cons.IH [OF 2]] show ?case by simp
qed

lemma postorder_root: "root_of t \<in> set (postorder t)"
  by (cases t) simp

lemma is_subtree_same:
  "same_outside D s s' \<Longrightarrow> D \<inter> set (postorder t) = {} \<Longrightarrow> is_subtree s' t = is_subtree s t"
proof (induction t)
  case (NTree n ts)
  have k: "isStateTreeNode c s' = isStateTreeNode c s" for c
    using NTree.prems(1) by (simp add: isStateTreeNode_def same_outside_def)
  have "parent (root_of t) s' = parent (root_of t) s \<and> is_subtree s' t = is_subtree s t"
    if "t \<in> set ts" for t
  proof -
    from that NTree.prems(2) have d: "D \<inter> set (postorder t) = {}" by auto
    with postorder_root [of t] have "root_of t \<notin> D" by auto
    with NTree.prems(1) NTree.IH [OF that NTree.prems(1) d] show ?thesis
      by (simp add: same_outside_def)
  qed
  with NTree.prems(1) show ?case
    by (auto simp: k same_outside_def)
qed


lemma walk_children:
  assumes st: "stable P"
    and IH: "\<And>t s. t \<in> set ts0 \<Longrightarrow> is_subtree s t \<Longrightarrow> distinct (postorder t) \<Longrightarrow>
               \<forall>m \<in> set (postorder t). isAlive m s \<Longrightarrow>
               walk P (root_of t) s = forEach P (postorder t) s"
  shows "set ts \<subseteq> set ts0 \<Longrightarrow>
         filter (\<lambda>c. isStateTreeNode c s) cs = map root_of ts \<Longrightarrow>
         \<forall>t \<in> set ts. is_subtree s t \<Longrightarrow>
         distinct (concat (map postorder ts)) \<Longrightarrow>
         \<forall>m \<in> set (concat (map postorder ts)). isAlive m s \<Longrightarrow>
         forEach (\<lambda>child s'. if isStateTreeNode child s' then walk P child s' else ok s') cs s
           = forEach P (concat (map postorder ts)) s"
proof (induction cs arbitrary: ts s)
  case Nil
  then show ?case by simp
next
  case (Cons c cs)
  let ?F = "\<lambda>child s'. if isStateTreeNode child s' then walk P child s' else ok s'"
  show ?case
  proof (cases "isStateTreeNode c s")
    case False
    with Cons.prems(2) have "filter (\<lambda>c. isStateTreeNode c s) cs = map root_of ts" by simp
    from Cons.IH [OF Cons.prems(1) this Cons.prems(3,4,5)] False show ?thesis by simp
  next
    case True
    with Cons.prems(2) obtain t1 ts' where ts: "ts = t1 # ts'" and c: "root_of t1 = c"
      and f: "filter (\<lambda>c. isStateTreeNode c s) cs = map root_of ts'"
      by (cases ts) auto
    from Cons.prems(1,3,4,5) ts have t1: "t1 \<in> set ts0" "is_subtree s t1" "distinct (postorder t1)"
      "\<forall>m \<in> set (postorder t1). isAlive m s"
      by auto
    have w: "walk P c s = forEach P (postorder t1) s"
      using IH [OF t1] c by simp
    have rest: "forEach ?F cs s1 = forEach P (concat (map postorder ts')) s1"
      if s1: "forEach P (postorder t1) s = Some (Inr s1)" for s1
    proof (rule Cons.IH)
      note so = forEach_stable [OF st s1]
      show "set ts' \<subseteq> set ts0" using Cons.prems(1) ts by simp
      show "filter (\<lambda>c. isStateTreeNode c s1) cs = map root_of ts'"
        using f so by (simp add: isStateTreeNode_def same_outside_def)
      show "distinct (concat (map postorder ts'))" using Cons.prems(4) ts by simp
      from Cons.prems(4) ts have dj: "set (postorder t1) \<inter> set (concat (map postorder ts')) = {}"
        by simp
      show "\<forall>t \<in> set ts'. is_subtree s1 t"
      proof
        fix t assume t: "t \<in> set ts'"
        with dj have "set (postorder t1) \<inter> set (postorder t) = {}" by auto
        from is_subtree_same [OF so this] Cons.prems(3) ts t show "is_subtree s1 t" by simp
      qed
      show "\<forall>m \<in> set (concat (map postorder ts')). isAlive m s1"
      proof
        fix m assume m: "m \<in> set (concat (map postorder ts'))"
        with dj have "m \<notin> set (postorder t1)" by auto
        with so have "isAlive m s1 = isAlive m s" by (simp add: same_outside_def)
        with Cons.prems(5) ts m show "isAlive m s1" by simp
      qed
    qed
    have "forEach ?F (c # cs) s = thenR (forEach P (postorder t1) s) (forEach ?F cs)"
      using True w by simp
    also have "\<dots> = thenR (forEach P (postorder t1) s) (forEach P (concat (map postorder ts')))"
      by (rule thenR_cong_ok) (rule rest)
    also have "\<dots> = forEach P (concat (map postorder ts)) s"
      by (simp add: ts forEach_append)
    finally show ?thesis .
  qed
qed

lemma walk_postorder:
  assumes st: "stable P"
  shows "is_subtree s t \<Longrightarrow> distinct (postorder t) \<Longrightarrow> \<forall>m \<in> set (postorder t). isAlive m s \<Longrightarrow>
         walk P (root_of t) s = forEach P (postorder t) s"
proof (induction t arbitrary: s)
  case (NTree n ts)
  let ?F = "\<lambda>child s'. if isStateTreeNode child s' then walk P child s' else ok s'"
  from NTree.prems(1) have k: "kind (heap s n) = Mutable"
    and f: "filter (\<lambda>c. isStateTreeNode c s) (map snd (children (heap s n))) = map root_of ts"
    and sub: "\<forall>t \<in> set ts. is_subtree s t"
    by simp_all
  from NTree.prems(3) have al: "isAlive n s" by simp
  have ch: "forEach ?F (map snd (children (heap s n))) s = forEach P (concat (map postorder ts)) s"
  proof (rule walk_children [OF st _ subset_refl f sub])
    show "distinct (concat (map postorder ts))" using NTree.prems(2) by simp
    show "\<forall>m \<in> set (concat (map postorder ts)). isAlive m s" using NTree.prems(3) by simp
    show "walk P (root_of t) s = forEach P (postorder t) s"
      if "t \<in> set ts" "is_subtree s t" "distinct (postorder t)" "\<forall>m \<in> set (postorder t). isAlive m s"
      for t s
      using that by (rule NTree.IH)
  qed
  have "walk P n s = thenR (forEach ?F (map snd (children (heap s n))) s) (P n)"
    using k al
    by (subst walk.simps)
      (simp add: getStateTreeNode_def isStateTreeNode_def getChildren_def assertAlive_def isAlive_def)
  also have "\<dots> = forEach P (postorder (NTree n ts)) s"
    by (simp add: ch forEach_append del: forEach.simps)
  finally show ?case by simp
qed

lemma for_tree_node_Mutable:
  "kind (heap s m) = Mutable \<Longrightarrow> for_tree_node f m s = f m s"
  by (simp add: for_tree_node_def getStateTreeNode_def isStateTreeNode_def)

lemma for_tree_node_ok:
  "for_tree_node f m s = Some (Inr s') \<Longrightarrow> f m s = Some (Inr s')"
  by (auto simp: for_tree_node_def thenR_ok getStateTreeNode_def split: if_splits)

lemma stable_for_tree_node: "stable f \<Longrightarrow> stable (for_tree_node f)"
  unfolding stable_def by (blast dest: for_tree_node_ok)

lemma forEach_unwrap:
  assumes "stable f"
  shows "\<forall>m \<in> set xs. kind (heap s m) = Mutable \<Longrightarrow>
         forEach (for_tree_node f) xs s = forEach f xs s"
proof (induction xs arbitrary: s)
  case Nil
  show ?case by simp
next
  case (Cons x xs)
  from Cons.prems have h: "for_tree_node f x s = f x s" by (simp add: for_tree_node_Mutable)
  have "thenR (f x s) (forEach (for_tree_node f) xs) = thenR (f x s) (forEach f xs)"
  proof (rule thenR_cong_ok)
    fix s1 assume "f x s = Some (Inr s1)"
    with assms have "\<forall>k. kind (heap s1 k) = kind (heap s k)" by (simp add: stable_def)
    with Cons.prems show "forEach (for_tree_node f) xs s1 = forEach f xs s1"
      by (intro Cons.IH) simp
  qed
  with h show ?case by simp
qed

lemma aboutToDie_Mutable:
  "kind (heap s m) = Mutable \<Longrightarrow>
   aboutToDie m s = ok (emit (aboutToDie_events s m) (update_node m (\<lambda>nd. nd\<lparr>disposers := []\<rparr>) s))"
  by (simp add: aboutToDie_def aboutToDie_events_def Let_def fireHook_def heap_update_node)

lemma stable_aboutToDie: "stable aboutToDie"
  unfolding stable_def
proof (intro allI impI)
  fix m s s' k
  assume a: "aboutToDie m s = Some (Inr s')"
  then have "kind (heap s m) = Mutable" by (auto simp: aboutToDie_def split: kind.splits)
  from a [unfolded aboutToDie_Mutable [OF this]]
  show "kind (heap s' k) = kind (heap s k) \<and> children (heap s' k) = children (heap s k)
        \<and> (k \<noteq> m \<longrightarrow> isAlive k s' = isAlive k s \<and> parent k s' = parent k s)"
    by (auto simp: heap_update_node isAlive_def parent_def)
qed

lemma aboutToDie_all:
  "distinct xs \<Longrightarrow> \<forall>m \<in> set xs. kind (heap s m) = Mutable \<Longrightarrow>
   \<exists>s1. forEach aboutToDie xs s = Some (Inr s1)
      \<and> trace s1 = trace s @ concat (map (aboutToDie_events s) xs)
      \<and> (\<forall>k. heap s1 k = (if k \<in> set xs then (heap s k)\<lparr>disposers := []\<rparr> else heap s k))"
proof (induction xs arbitrary: s)
  case Nil
  show ?case by simp
next
  case (Cons x xs)
  let ?sx = "emit (aboutToDie_events s x) (update_node x (\<lambda>nd. nd\<lparr>disposers := []\<rparr>) s)"
  from Cons.prems have x: "aboutToDie x s = ok ?sx" by (simp add: aboutToDie_Mutable)
  from Cons.prems have nx: "x \<notin> set xs" and d: "distinct xs" by simp_all
  have hx: "heap ?sx k = (if k = x then (heap s k)\<lparr>disposers := []\<rparr> else heap s k)" for k
    by (simp add: heap_update_node)
  have "\<forall>m \<in> set xs. kind (heap ?sx m) = Mutable" using Cons.prems(2) by (simp add: heap_update_node)
  from Cons.IH [OF d this] obtain s1 where r: "forEach aboutToDie xs ?sx = Some (Inr s1)"
    and t: "trace s1 = trace ?sx @ concat (map (aboutToDie_events ?sx) xs)"
    and h: "\<forall>k. heap s1 k = (if k \<in> set xs then (heap ?sx k)\<lparr>disposers := []\<rparr> else heap ?sx k)"
    by blast
  have ev: "map (aboutToDie_events ?sx) xs = map (aboutToDie_events s) xs"
    using nx by (intro map_cong) (auto simp: aboutToDie_events_def heap_update_node)
  have "forEach aboutToDie (x # xs) s = Some (Inr s1)" using x r by simp
  moreover have "trace s1 = trace s @ concat (map (aboutToDie_events s) (x # xs))"
    using t ev by simp
  moreover have "\<forall>k. heap s1 k = (if k \<in> set (x # xs) then (heap s k)\<lparr>disposers := []\<rparr> else heap s k)"
    using h nx by (auto simp: heap_update_node)
  ultimately show ?case by blast
qed

lemma fin_post_Nil: "identifierCache (heap s r) \<noteq> None \<Longrightarrow> fin_post [] r s s"
  by (simp add: fin_post_def)

lemma fin_post_append:
  "fin_post xs r s s1 \<Longrightarrow> fin_post ys r s1 s' \<Longrightarrow> fin_post (xs @ ys) r s s'"
proof -
  assume a: "fin_post xs r s s1" and b: "fin_post ys r s1 s'"
  have 1: "\<not> isAlive m s' \<and> parent m s' = None" if "m \<in> set (xs @ ys)" for m
  proof (cases "m \<in> set ys")
    case True
    with b show ?thesis by (simp add: fin_post_def)
  next
    case False
    with that have "m \<in> set xs" by simp
    with a have "\<not> isAlive m s1 \<and> parent m s1 = None" by (simp add: fin_post_def)
    moreover from b False have "parent m s' = parent m s1 \<and> isAlive m s' = isAlive m s1"
      by (simp add: fin_post_def)
    ultimately show ?thesis by simp
  qed
  have 2: "parent k s' = parent k s \<and> isAlive k s' = isAlive k s" if "k \<notin> set (xs @ ys)" for k
    using that a b by (simp add: fin_post_def)
  have 3: "kind (heap s' k) = kind (heap s k) \<and> children (heap s' k) = children (heap s k)
           \<and> disposers (heap s' k) = disposers (heap s k)" for k
    using a b by (simp add: fin_post_def)
  have 4: "identifierCache (heap s' r) \<noteq> None \<and> trace s' = trace s"
    using a b by (simp add: fin_post_def)
  from 1 2 3 4 show ?thesis unfolding fin_post_def by blast
qed

lemma fin_post_same_outside: "fin_post xs r s s' \<Longrightarrow> same_outside (set xs) s s'"
  by (simp add: fin_post_def same_outside_def)

lemma finalizeDeath_Mutable:
  assumes k: "kind (heap s m) = Mutable" and c: "ancestor_chain m s = Some cm"
    and i: "identifierCache (heap s (last cm)) = Some ic"
  shows "\<exists>s'. finalizeDeath m s = Some (Inr s') \<and> fin_post [m] (last cm) s s'"
proof -
  let ?r = "last cm"
  let ?s1 = "update_node ?r (\<lambda>nd. nd\<lparr>identifierCache := Some (NotifyDied ic m)\<rparr>) s"
  have c1: "ancestor_chain m ?s1 = Some cm"
    by (rule chain_transfer [OF c]) (simp add: parent_def heap_update_node)
  note p1 = chain_path [OF c1]
  let ?s' = "update_node m (\<lambda>nd. nd\<lparr>frozenSnapshot := Some (get_snapshot m ?s1),
                 patchSubscribers := [], snapshotSubscribers := [], priv_isAlive := False,
                 priv_parent := None, subpath := [], poisoned := Some (chain_path ?s1 cm)\<rparr>) ?s1"
  have "finalizeDeath m s = Some (Inr ?s')"
    using k i chain_root [OF c] p1
    by (simp add: finalizeDeath_def thenR_def lift_def ok_def Let_def)
  moreover have "fin_post [m] ?r s ?s'"
    using i by (auto simp: fin_post_def heap_update_node isAlive_def parent_def)
  ultimately show ?thesis by blast
qed

lemma stable_finalizeDeath: "stable finalizeDeath"
  unfolding stable_def
  by (auto simp: finalizeDeath_def thenR_ok case_option_fail_ok Let_def heap_update_node
      isAlive_def parent_def split: kind.splits if_splits)

lemma chain_transfer_outside:
  assumes c: "ancestor_chain n s = Some as" and so: "same_outside D s s'" and d: "set as \<inter> D = {}"
  shows "ancestor_chain n s' = Some as"
proof (rule chain_transfer [OF c])
  fix m assume "m \<in> set as"
  with d have "m \<notin> D" by auto
  with so show "parent m s' = parent m s" by (simp add: same_outside_def)
qed

lemma finalize_forest:
  assumes IH: "\<And>t s as. t \<in> set ts0 \<Longrightarrow> is_subtree s t \<Longrightarrow> distinct (postorder t) \<Longrightarrow>
      ancestor_chain (root_of t) s = Some as \<Longrightarrow> set (tl as) \<inter> set (postorder t) = {} \<Longrightarrow>
      identifierCache (heap s (last as)) \<noteq> None \<Longrightarrow>
      \<exists>s'. forEach finalizeDeath (postorder t) s = Some (Inr s')
           \<and> fin_post (postorder t) (last as) s s'"
  shows "set ts \<subseteq> set ts0 \<Longrightarrow>
      \<forall>t \<in> set ts. parent (root_of t) s = Some n \<and> is_subtree s t \<Longrightarrow>
      distinct (concat (map postorder ts)) \<Longrightarrow>
      ancestor_chain n s = Some as \<Longrightarrow> set as \<inter> set (concat (map postorder ts)) = {} \<Longrightarrow>
      identifierCache (heap s (last as)) \<noteq> None \<Longrightarrow>
      \<exists>s'. forEach finalizeDeath (concat (map postorder ts)) s = Some (Inr s')
           \<and> fin_post (concat (map postorder ts)) (last as) s s'"
proof (induction ts arbitrary: s)
  case Nil
  then show ?case by (simp add: fin_post_Nil)
next
  case (Cons t1 ts)
  let ?c = "root_of t1"
  from Cons.prems(2) have pc: "parent ?c s = Some n" and st1: "is_subtree s t1" by simp_all
  from Cons.prems(4) have ne: "as \<noteq> []" by (auto simp: ancestor_chain_not_Nil)
  have cc: "ancestor_chain ?c s = Some (?c # as)"
    using pc Cons.prems(4) by (subst ancestor_chain.simps) simp
  have "\<exists>s'. forEach finalizeDeath (postorder t1) s = Some (Inr s')
           \<and> fin_post (postorder t1) (last (?c # as)) s s'"
  proof (rule IH [OF _ st1 _ cc])
    show "t1 \<in> set ts0" using Cons.prems(1) by simp
    show "distinct (postorder t1)" using Cons.prems(3) by simp
    show "set (tl (?c # as)) \<inter> set (postorder t1) = {}" using Cons.prems(5) by auto
    show "identifierCache (heap s (last (?c # as))) \<noteq> None" using Cons.prems(6) ne by simp
  qed
  then obtain s1 where f1: "forEach finalizeDeath (postorder t1) s = Some (Inr s1)"
    and p1: "fin_post (postorder t1) (last as) s s1"
    using ne by auto
  note so = fin_post_same_outside [OF p1]
  from Cons.prems(3) have dj: "set (postorder t1) \<inter> set (concat (map postorder ts)) = {}"
    by simp
  have "\<exists>s'. forEach finalizeDeath (concat (map postorder ts)) s1 = Some (Inr s')
           \<and> fin_post (concat (map postorder ts)) (last as) s1 s'"
  proof (rule Cons.IH)
    show "set ts \<subseteq> set ts0" using Cons.prems(1) by simp
    show "\<forall>t \<in> set ts. parent (root_of t) s1 = Some n \<and> is_subtree s1 t"
    proof
      fix t assume t: "t \<in> set ts"
      with dj have d: "set (postorder t1) \<inter> set (postorder t) = {}" by auto
      with postorder_root [of t] have "root_of t \<notin> set (postorder t1)" by auto
      with so have "parent (root_of t) s1 = parent (root_of t) s" by (simp add: same_outside_def)
      with is_subtree_same [OF so d] Cons.prems(2) t
      show "parent (root_of t) s1 = Some n \<and> is_subtree s1 t" by simp
    qed
    show "distinct (concat (map postorder ts))" using Cons.prems(3) by simp
    show "ancestor_chain n s1 = Some as"
      using Cons.prems(5) by (intro chain_transfer_outside [OF Cons.prems(4) so]) auto
    show "set as \<inter> set (concat (map postorder ts)) = {}" using Cons.prems(5) by auto
    show "identifierCache (heap s1 (last as)) \<noteq> None" using p1 by (simp add: fin_post_def)
  qed
  then obtain s' where f2: "forEach finalizeDeath (concat (map postorder ts)) s1 = Some (Inr s')"
    and p2: "fin_post (concat (map postorder ts)) (last as) s1 s'"
    by blast
  have "forEach finalizeDeath (concat (map postorder (t1 # ts))) s = Some (Inr s')"
    using f1 f2 by (simp add: forEach_append thenR_def)
  moreover have "fin_post (concat (map postorder (t1 # ts))) (last as) s s'"
    using fin_post_append [OF p1 p2] by simp
  ultimately show ?case by blast
qed

lemma finalize_tree:
  "is_subtree s t \<Longrightarrow> distinct (postorder t) \<Longrightarrow>
   ancestor_chain (root_of t) s = Some as \<Longrightarrow> set (tl as) \<inter> set (postorder t) = {} \<Longrightarrow>
   identifierCache (heap s (last as)) \<noteq> None \<Longrightarrow>
   \<exists>s'. forEach finalizeDeath (postorder t) s = Some (Inr s')
        \<and> fin_post (postorder t) (last as) s s'"
proof (induction t arbitrary: s as)
  case (NTree n ts)
  from NTree.prems(1) have k: "kind (heap s n) = Mutable"
    and sub: "\<forall>t \<in> set ts. parent (root_of t) s = Some n \<and> is_subtree s t"
    by simp_all
  from NTree.prems(3) have c: "ancestor_chain n s = Some as" by simp
  from chain_head [OF c] obtain as' where as: "as = n # as'" by blast
  from NTree.prems(2) have dc: "distinct (concat (map postorder ts))"
    and nn: "n \<notin> set (concat (map postorder ts))" by simp_all
  from NTree.prems(4) as nn have dj: "set as \<inter> set (concat (map postorder ts)) = {}" by auto
  have "\<exists>s'. forEach finalizeDeath (concat (map postorder ts)) s = Some (Inr s')
           \<and> fin_post (concat (map postorder ts)) (last as) s s'"
    by (rule finalize_forest [OF NTree.IH subset_refl sub dc c dj NTree.prems(5)])
  then obtain s1 where f1: "forEach finalizeDeath (concat (map postorder ts)) s = Some (Inr s1)"
    and p1: "fin_post (concat (map postorder ts)) (last as) s s1"
    by blast
  note so = fin_post_same_outside [OF p1]
  have c1: "ancestor_chain n s1 = Some as"
    using dj by (intro chain_transfer_outside [OF c so]) auto
  from p1 k have k1: "kind (heap s1 n) = Mutable" by (simp add: fin_post_def)
  from p1 obtain ic where i1: "identifierCache (heap s1 (last as)) = Some ic"
    by (auto simp: fin_post_def)
  from finalizeDeath_Mutable [OF k1 c1 i1] obtain s' where
    f2: "finalizeDeath n s1 = Some (Inr s')" and p2: "fin_post [n] (last as) s1 s'"
    by blast
  have "forEach finalizeDeath (postorder (NTree n ts)) s = Some (Inr s')"
    using f1 f2 by (simp add: forEach_append thenR_def del: forEach.simps)
  moreover have "fin_post (postorder (NTree n ts)) (last as) s s'"
    using fin_post_append [OF p1 p2] by simp
  ultimately show ?case by blast
qed

lemma is_subtree_Mutable: "is_subtree s t \<Longrightarrow> \<forall>m \<in> set (postorder t). kind (heap s m) = Mutable"
  by (induction t) auto

lemma addDisposer_all:
  "kind (heap \<sigma> n) = Mutable \<Longrightarrow>
   forEach (addDisposer n) ds \<sigma> = ok (update_node n (\<lambda>nd. nd\<lparr>disposers := rev ds @ disposers nd\<rparr>) \<sigma>)"
proof (induction ds arbitrary: \<sigma>)
  case Nil
  show ?case by (simp add: update_node_def)
next
  case (Cons d ds)
  let ?s = "update_node n (\<lambda>nd. nd\<lparr>disposers := d # disposers nd\<rparr>) \<sigma>"
  have "kind (heap ?s n) = Mutable" using Cons.prems by (simp add: heap_update_node)
  from Cons.IH [OF this] Cons.prems show ?case
    by (simp add: addDisposer_def update_node_def)
qed

text \<open>
  C1, as the code has it: let \<open>t\<close> be the tree of the tree-attached nodes at and below a mutable
  node that is not detaching (all of them alive and distinct, the node's parent chain ending
  outside \<open>t\<close> at a root that holds an identifier cache). Then \<^verbatim>\<open>die()\<close> is two passes over the
  depth-first order of \<open>t\<close>: \<^verbatim>\<open>aboutToDie\<close> on every node of it, and only then \<^verbatim>\<open>finalizeDeath\<close>
  on every node of it. It returns; user code has seen, node by node in that order, the
  node's disposers from the last registered to the first and then its \<^verbatim>\<open>beforeDestroy\<close>
  hook, each once and nothing else; afterwards every node of \<open>t\<close> is dead and has no disposer
  left, and every node outside \<open>t\<close> (an immutable leaf below the node among them) is as alive
  as it was. Registering disposers one after another puts the last one first.
\<close>

theorem die_cascade:
  assumes sub: "is_subtree \<sigma> t" and rt: "root_of t = n" and dist: "distinct (postorder t)"
    and alive: "\<forall>m \<in> set (postorder t). isAlive m \<sigma>"
    and nd: "\<not> priv_isDetaching (heap \<sigma> n)"
    and chain: "ancestor_chain n \<sigma> = Some as"
    and above: "set (tl as) \<inter> set (postorder t) = {}"
    and cache: "identifierCache (heap \<sigma> (last as)) \<noteq> None"
  shows "die n \<sigma> = thenR (forEach aboutToDie (postorder t) \<sigma>) (forEach finalizeDeath (postorder t))
       \<and> (\<exists>\<sigma>'. die n \<sigma> = ok \<sigma>'
             \<and> trace \<sigma>' = trace \<sigma> @ concat (map (aboutToDie_events \<sigma>) (postorder t))
             \<and> (\<forall>m \<in> set (postorder t). \<not> isAlive m \<sigma>' \<and> disposers (heap \<sigma>' m) = [])
             \<and> (\<forall>k. k \<notin> set (postorder t) \<longrightarrow> isAlive k \<sigma>' = isAlive k \<sigma>))
       \<and> forEach (addDisposer n) ds \<sigma>
           = ok (update_node n (\<lambda>nd. nd\<lparr>disposers := rev ds @ disposers nd\<rparr>) \<sigma>)"
proof -
  let ?xs = "postorder t"
  note mut = is_subtree_Mutable [OF sub]
  from mut rt postorder_root [of t] have k: "kind (heap \<sigma> n) = Mutable" by auto
  have d: "die n \<sigma> = thenR (walk (for_tree_node aboutToDie) n \<sigma>) (walk (for_tree_node finalizeDeath) n)"
    using k nd by (simp add: die_def for_tree_node_def isStateTreeNode_def)
  have w1: "walk (for_tree_node aboutToDie) n \<sigma> = forEach aboutToDie ?xs \<sigma>"
    using walk_postorder [OF stable_for_tree_node [OF stable_aboutToDie] sub dist alive]
      forEach_unwrap [OF stable_aboutToDie mut] rt by simp
  from aboutToDie_all [OF dist mut] obtain s1 where
    a1: "forEach aboutToDie ?xs \<sigma> = Some (Inr s1)"
    and t1: "trace s1 = trace \<sigma> @ concat (map (aboutToDie_events \<sigma>) ?xs)"
    and h1: "\<forall>k. heap s1 k = (if k \<in> set ?xs then (heap \<sigma> k)\<lparr>disposers := []\<rparr> else heap \<sigma> k)"
    by blast
  have so: "same_outside {} \<sigma> s1"
    using h1 by (simp add: same_outside_def isAlive_def parent_def)
  have sub1: "is_subtree s1 t" using is_subtree_same [OF so, of t] sub by simp
  have al1: "\<forall>m \<in> set ?xs. isAlive m s1" using alive so by (simp add: same_outside_def)
  have c1: "ancestor_chain (root_of t) s1 = Some as"
    using chain_transfer_outside [OF chain so] rt by simp
  have i1: "identifierCache (heap s1 (last as)) \<noteq> None" using cache h1 by simp
  have mut1: "\<forall>m \<in> set ?xs. kind (heap s1 m) = Mutable" by (rule is_subtree_Mutable [OF sub1])
  have w2: "walk (for_tree_node finalizeDeath) n s1 = forEach finalizeDeath ?xs s1"
    using walk_postorder [OF stable_for_tree_node [OF stable_finalizeDeath] sub1 dist al1]
      forEach_unwrap [OF stable_finalizeDeath mut1] rt by simp
  from finalize_tree [OF sub1 dist c1 above i1] obtain \<sigma>' where
    f: "forEach finalizeDeath ?xs s1 = Some (Inr \<sigma>')" and p: "fin_post ?xs (last as) s1 \<sigma>'"
    by blast
  have two: "die n \<sigma> = thenR (forEach aboutToDie ?xs \<sigma>) (forEach finalizeDeath ?xs)"
    unfolding d w1 by (rule thenR_cong_ok) (simp add: a1 w2)
  have ret: "die n \<sigma> = ok \<sigma>'"
    unfolding two by (simp add: a1 f thenR_def ok_def)
  have tr: "trace \<sigma>' = trace \<sigma> @ concat (map (aboutToDie_events \<sigma>) ?xs)"
    using p t1 by (simp add: fin_post_def)
  have dead: "\<forall>m \<in> set ?xs. \<not> isAlive m \<sigma>' \<and> disposers (heap \<sigma>' m) = []"
    using p h1 by (simp add: fin_post_def)
  have others: "\<forall>k. k \<notin> set ?xs \<longrightarrow> isAlive k \<sigma>' = isAlive k \<sigma>"
    using p so by (simp add: fin_post_def same_outside_def)
  from two ret tr dead others addDisposer_all [OF k, of ds] show ?thesis by blast
qed

theorem die_cascade_witness:
  "is_subtree tree_state (NTree 1 [NTree 2 [], NTree 4 []])
   \<and> postorder (NTree 1 [NTree 2 [], NTree 4 []]) = [2, 4, 1]
   \<and> isAlive 2 tree_state \<and> isAlive 4 tree_state \<and> isAlive 1 tree_state
   \<and> \<not> priv_isDetaching (heap tree_state 1)
   \<and> ancestor_chain 1 tree_state = Some [1]
   \<and> identifierCache (heap tree_state 1) = Some NewCache
   \<and> (\<exists>\<sigma>'. die 1 tree_state = ok \<sigma>'
         \<and> trace \<sigma>' = [DisposerCalled 2 12, DisposerCalled 1 10, DisposerCalled 1 11,
                         HookFired 1 ''beforeDestroy'']
         \<and> \<not> isAlive 2 \<sigma>' \<and> \<not> isAlive 4 \<sigma>' \<and> \<not> isAlive 1 \<sigma>' \<and> isAlive 3 \<sigma>')
   \<and> forEach (addDisposer 1) [30, 31] tree_state
       = ok (update_node 1 (\<lambda>nd. nd\<lparr>disposers := [31, 30] @ disposers nd\<rparr>) tree_state)"
proof -
  let ?t = "NTree 1 [NTree 2 [], NTree 4 []]"
  have sub: "is_subtree tree_state ?t"
    by (simp add: isStateTreeNode_def parent_def tree_state_def tree_heap_def blank_def)
  have rt: "root_of ?t = 1" by simp
  have po: "postorder ?t = [2, 4, 1]" by simp
  have dist: "distinct (postorder ?t)" by simp
  have al: "isAlive 2 tree_state \<and> isAlive 4 tree_state \<and> isAlive 1 tree_state \<and> isAlive 3 tree_state"
    by (simp add: isAlive_def tree_state_def tree_heap_def blank_def)
  then have alive: "\<forall>m \<in> set (postorder ?t). isAlive m tree_state" by simp
  have nd: "\<not> priv_isDetaching (heap tree_state 1)"
    by (simp add: tree_state_def tree_heap_def blank_def)
  have chain: "ancestor_chain 1 tree_state = Some [1]"
    by (simp add: ancestor_chain.simps parent_def tree_state_def tree_heap_def blank_def)
  have above: "set (tl [1::nat]) \<inter> set (postorder ?t) = {}" by simp
  have ic: "identifierCache (heap tree_state 1) = Some NewCache"
    by (simp add: tree_state_def tree_heap_def blank_def)
  then have cache: "identifierCache (heap tree_state (last [1])) \<noteq> None" by simp
  have ev: "trace tree_state @ concat (map (aboutToDie_events tree_state) [2, 4, 1])
            = [DisposerCalled 2 12, DisposerCalled 1 10, DisposerCalled 1 11,
               HookFired 1 ''beforeDestroy'']"
    by (simp add: aboutToDie_events_def tree_state_def tree_heap_def blank_def)
  from die_cascade [OF sub rt dist alive nd chain above cache, of "[30, 31]"]
  obtain \<sigma>' where d: "die 1 tree_state = ok \<sigma>'"
    and tr: "trace \<sigma>' = trace tree_state @ concat (map (aboutToDie_events tree_state) (postorder ?t))"
    and dead: "\<forall>m \<in> set (postorder ?t). \<not> isAlive m \<sigma>' \<and> disposers (heap \<sigma>' m) = []"
    and others: "\<forall>k. k \<notin> set (postorder ?t) \<longrightarrow> isAlive k \<sigma>' = isAlive k tree_state"
    and reg: "forEach (addDisposer 1) [30, 31] tree_state
       = ok (update_node 1 (\<lambda>nd. nd\<lparr>disposers := rev [30, 31] @ disposers nd\<rparr>) tree_state)"
    by blast
  from others al have "isAlive 3 \<sigma>'" by simp
  with d tr dead ev have "\<exists>\<sigma>'. die 1 tree_state = ok \<sigma>'
         \<and> trace \<sigma>' = [DisposerCalled 2 12, DisposerCalled 1 10, DisposerCalled 1 11,
                         HookFired 1 ''beforeDestroy'']
         \<and> \<not> isAlive 2 \<sigma>' \<and> \<not> isAlive 4 \<sigma>' \<and> \<not> isAlive 1 \<sigma>' \<and> isAlive 3 \<sigma>'"
    by (intro exI [of _ \<sigma>']) simp
  with sub po al nd chain ic reg show ?thesis by simp
qed

lemma die_1_returns: "\<exists>s. die 1 tree_state = Some (Inr s)"
  by (simp add: tree_eval)

text \<open>
  C1 as stated fails for a descendant that is no tree node: the leaf at \<^verbatim>\<open>/a/b\<close> of the
  example tree, held by an \<^verbatim>\<open>ImmutableNode\<close>, is still alive after \<^verbatim>\<open>die()\<close> on the root has
  returned and has killed the root and the node at \<^verbatim>\<open>/a\<close>.
\<close>

theorem die_leaf_counterexample:
  "ancestor_chain 3 tree_state = Some [3, 2, 1] \<and> kind (heap tree_state 3) = Immutable
   \<and> die 1 tree_state = ok cascade_state
   \<and> \<not> isAlive 1 cascade_state \<and> \<not> isAlive 2 cascade_state \<and> isAlive 3 cascade_state"
proof -
  have "ancestor_chain 3 tree_state = Some [3, 2, 1] \<and> kind (heap tree_state 3) = Immutable"
    by (simp add: ancestor_chain.simps parent_def tree_state_def tree_heap_def blank_def)
  moreover have "die 1 tree_state = ok cascade_state"
    using die_1_returns by (auto simp: cascade_state_def ok_def)
  moreover have "\<not> isAlive 1 cascade_state \<and> \<not> isAlive 2 cascade_state \<and> isAlive 3 cascade_state"
    by (simp add: cascade_state_def tree_eval)
  ultimately show ?thesis by simp
qed

end
